theory Spec2Isabelle
  imports Main "HOL-Library.Word"
begin

section \<open>Bytes, errors and outcomes\<close>

type_synonym byte = "8 word"
type_synonym bytes = "byte list"

text \<open>
  Go functions of the program return an error value next to their result, and some of them
  panic. Errors are values of \<open>error\<close>; a function that can panic returns a \<open>go\<close> outcome.
\<close>

datatype oscall =
  CreateTemp | SeekInput | TellInput | SeekCiphertext | SeekOutput | RewriteHeader | Sync | Close
  | Rename

datatype error =
    EOF
  | ErrUnexpectedEOF
  | ErrChunkTooLarge
  | ErrOpen
  | ErrKeySize
  | ErrShortWrite
  | ErrWrite
  | ErrOS oscall
  | errBadMAC
  | ErrRand
  | ErrGenerateKey

datatype 'a go = Panic string | Ret 'a

definition maxChunkSize :: nat where
  "maxChunkSize = 16384"

text \<open>
  A fixed-size Go array \<open>[n]byte\<close> that receives a slice through \<open>copy\<close>: the first
  \<open>n\<close> bytes of the slice, the rest of the (zeroed) array untouched.
\<close>

definition array_of :: "nat \<Rightarrow> bytes \<Rightarrow> bytes" where
  "array_of n xs = take n xs @ replicate (n - length xs) 0"

text \<open>\<open>encoding/binary\<close>, little endian: an unsigned integer on \<open>n\<close> bytes.\<close>

primrec le_bytes :: "nat \<Rightarrow> nat \<Rightarrow> bytes" where
  "le_bytes 0 k = []"
| "le_bytes (Suc n) k = of_nat (k mod 256) # le_bytes n (k div 256)"

primrec le_nat :: "bytes \<Rightarrow> nat" where
  "le_nat [] = 0"
| "le_nat (b # bs) = unat b + 256 * le_nat bs"

text \<open>
  \<open>io.ReadFull\<close> on a reader whose unread content is \<open>r\<close>: exactly \<open>n\<close> bytes, or
  \<open>EOF\<close> when nothing could be read, or \<open>ErrUnexpectedEOF\<close> when the source ends early.
  A request for zero bytes succeeds without reading.
\<close>

definition io_ReadFull :: "bytes \<Rightarrow> nat \<Rightarrow> (error + bytes) \<times> bytes" where
  "io_ReadFull r n =
     (if n \<le> length r then (Inr (take n r), drop n r)
      else if r = [] then (Inl EOF, [])
      else (Inl ErrUnexpectedEOF, []))"

section \<open>The cryptographic primitives\<close>

text \<open>
  XChaCha20-Poly1305, keyed BLAKE2b-512 and Argon2id come from libraries outside the
  repository; they are parameters of the model.
\<close>

record crypto =
  Seal :: "bytes \<Rightarrow> bytes \<Rightarrow> bytes \<Rightarrow> bytes"
  Open :: "bytes \<Rightarrow> bytes \<Rightarrow> bytes \<Rightarrow> bytes option"
  blake2b_512 :: "bytes \<Rightarrow> bytes \<Rightarrow> bytes"
  argon2id :: "bytes \<Rightarrow> bytes \<Rightarrow> 32 word \<Rightarrow> 32 word \<Rightarrow> 8 word \<Rightarrow> bytes"

text \<open>
  \<open>argon2.IDKey\<close> returns exactly \<open>keyLen\<close> bytes, and panics on a pass count or a
  parallelism degree below 1.
\<close>

definition IDKey ::
  "crypto \<Rightarrow> bytes \<Rightarrow> bytes \<Rightarrow> 32 word \<Rightarrow> 32 word \<Rightarrow> 8 word \<Rightarrow> nat \<Rightarrow> bytes go" where
  "IDKey c password salt time memory threads keyLen =
     (if time < 1 then Panic ''argon2: number of rounds too small''
      else if threads < 1 then Panic ''argon2: parallelism degree too low''
      else Ret (array_of keyLen (argon2id c password salt time memory threads)))"

text \<open>
  \<open>crypto/rand.Reader\<close>: what the \<open>k\<close>-th read request can obtain from the system
  (\<open>None\<close>: the read fails). \<open>io.ReadFull\<close> fails as well when fewer bytes than asked
  for arrive.
\<close>

type_synonym rand_Reader = "nat \<Rightarrow> bytes option"

definition rand_ReadFull :: "rand_Reader \<Rightarrow> nat \<Rightarrow> nat \<Rightarrow> bytes option" where
  "rand_ReadFull rnd k n =
     (case rnd k of
        None \<Rightarrow> None
      | Some bs \<Rightarrow> if length bs < n then None else Some (take n bs))"

section \<open>The file header\<close>

definition defaultArgonTime :: "32 word" where
  "defaultArgonTime = 4"

definition defaultArgonMemory :: "32 word" where
  "defaultArgonMemory = 4000000"

definition saltSize :: nat where "saltSize = 32"
definition keyLen :: nat where "keyLen = 32"
definition macLen :: nat where "macLen = 32"

record fileHeader =
  Salt :: bytes
  ArgonTime :: "32 word"
  ArgonMemory :: "32 word"
  ArgonLanes :: "8 word"
  Tag :: bytes

text \<open>
  \<open>binary.Write(output, binary.LittleEndian, header)\<close>: the fields one after the other,
  each on its own size, nothing between them.
\<close>

definition binary_Write_header :: "fileHeader \<Rightarrow> bytes" where
  "binary_Write_header h =
     array_of 32 (Salt h) @ le_bytes 4 (unat (ArgonTime h)) @ le_bytes 4 (unat (ArgonMemory h))
       @ [ArgonLanes h] @ array_of 64 (Tag h)"

definition headerSize :: nat where
  "headerSize = 32 + 4 + 4 + 1 + 64"

definition binary_Read_header :: "bytes \<Rightarrow> (error + fileHeader) \<times> bytes" where
  "binary_Read_header r =
     (case io_ReadFull r headerSize of
        (Inl e, r') \<Rightarrow> (Inl e, r')
      | (Inr d, r') \<Rightarrow>
          (Inr \<lparr> Salt = take 32 d,
                 ArgonTime = of_nat (le_nat (take 4 (drop 32 d))),
                 ArgonMemory = of_nat (le_nat (take 4 (drop 36 d))),
                 ArgonLanes = d ! 40,
                 Tag = take 64 (drop 41 d) \<rparr>, r'))"

text \<open>\<open>uint8(runtime.NumCPU() * 2)\<close>: the conversion keeps the low eight bits.\<close>

definition defaultArgonLanes :: "nat \<Rightarrow> 8 word" where
  "defaultArgonLanes numCPU = of_nat (numCPU * 2)"

text \<open>
  \<open>generateKey\<close>, with the state of \<open>rand.Reader\<close> (the number of reads made so far)
  passed in and returned.
\<close>

definition generateKey ::
  "crypto \<Rightarrow> rand_Reader \<Rightarrow> nat \<Rightarrow> nat \<Rightarrow> bytes \<Rightarrow> ((error + bytes \<times> fileHeader) \<times> nat) go" where
  "generateKey c rnd numCPU k passphrase =
     (case rand_ReadFull rnd k 32 of
        None \<Rightarrow> Ret (Inl ErrRand, Suc k)
      | Some salt \<Rightarrow>
          (let header = \<lparr> Salt = salt, ArgonTime = defaultArgonTime,
                          ArgonMemory = defaultArgonMemory,
                          ArgonLanes = defaultArgonLanes numCPU,
                          Tag = replicate 64 0 \<rparr>
           in case IDKey c passphrase (Salt header) (ArgonTime header) (ArgonMemory header)
                     (ArgonLanes header) (keyLen + macLen) of
                Panic m \<Rightarrow> Panic m
              | Ret skb \<Rightarrow> Ret (Inr (skb, header), Suc k)))"

section \<open>The streaming encryptor\<close>

text \<open>
  An \<open>io.Writer\<close> that keeps what it was given: \<open>written\<close> is everything accepted so
  far, \<open>room\<close> the number of bytes it can still take (\<open>None\<close>: no limit, as for a
  \<open>bytes.Buffer\<close>). A write that does not fit fails and adds nothing.
\<close>

record sink =
  written :: bytes
  room :: "nat option"

definition sink_Write :: "sink \<Rightarrow> bytes \<Rightarrow> error + sink" where
  "sink_Write s p =
     (case room s of
        None \<Rightarrow> Inr (s\<lparr>written := written s @ p\<rparr>)
      | Some r \<Rightarrow>
          if length p \<le> r then Inr (s\<lparr>written := written s @ p, room := Some (r - length p)\<rparr>)
          else Inl ErrWrite)"

record EncWriter =
  out :: sink
  buf :: bytes
  usedNonces :: "bytes set"
  secretKey :: bytes

definition NewWriter :: "bytes \<Rightarrow> sink \<Rightarrow> EncWriter" where
  "NewWriter sk s = \<lparr> out = s, buf = [], usedNonces = {}, secretKey = array_of 32 sk \<rparr>"

text \<open>
  \<open>writeChunk\<close>. The state is the writer together with the number of reads made from
  \<open>rand.Reader\<close> so far. \<open>chacha20poly1305.NewX\<close> refuses a key that is not 32 bytes
  long.
\<close>

definition writeChunk ::
  "crypto \<Rightarrow> rand_Reader \<Rightarrow> nat \<times> EncWriter \<Rightarrow> (error option \<times> nat \<times> EncWriter) go" where
  "writeChunk c rnd st =
     (case st of (k, w) \<Rightarrow>
      (case rand_ReadFull rnd k 24 of
         None \<Rightarrow> Panic ''could not read entropy for encryption''
       | Some nonce \<Rightarrow>
           if nonce \<in> usedNonces w then Panic ''nonce reuse''
           else
             (let w1 = w\<lparr>usedNonces := insert nonce (usedNonces w)\<rparr> in
              if length (secretKey w1) \<noteq> 32 then Ret (Some ErrKeySize, Suc k, w1)
              else
                (let encryptedData = Seal c (secretKey w1) nonce (buf w1);
                     w2 = w1\<lparr>buf := []\<rparr>
                 in case sink_Write (out w2) nonce of
                      Inl e \<Rightarrow> Ret (Some e, Suc k, w2)
                    | Inr o1 \<Rightarrow>
                        (case sink_Write o1 (le_bytes 8 (length encryptedData)) of
                           Inl e \<Rightarrow> Ret (Some e, Suc k, w2\<lparr>out := o1\<rparr>)
                         | Inr o2 \<Rightarrow>
                             (case sink_Write o2 encryptedData of
                                Inl e \<Rightarrow> Ret (Some e, Suc k, w2\<lparr>out := o2\<rparr>)
                              | Inr o3 \<Rightarrow> Ret (None, Suc k, w2\<lparr>out := o3\<rparr>)))))))"

text \<open>
  One iteration of the loop of \<open>Write\<close>, for the byte \<open>b\<close> of \<open>p\<close>: a full buffer is
  written out as a chunk first, then the byte is appended.
\<close>

definition Write_body ::
  "crypto \<Rightarrow> rand_Reader \<Rightarrow> byte \<Rightarrow> nat \<times> EncWriter \<Rightarrow> (error option \<times> nat \<times> EncWriter) go" where
  "Write_body c rnd b st =
     (case st of (k, w) \<Rightarrow>
      if length (buf w) = maxChunkSize then
        (case writeChunk c rnd (k, w) of
           Panic m \<Rightarrow> Panic m
         | Ret (Some err, st') \<Rightarrow> Ret (Some err, st')
         | Ret (None, k', w') \<Rightarrow> Ret (None, k', w'\<lparr>buf := buf w' @ [b]\<rparr>))
      else Ret (None, k, w\<lparr>buf := buf w @ [b]\<rparr>))"

text \<open>
  The loop over the bytes of \<open>p\<close>, from index \<open>i\<close> on: \<open>Some (i, err)\<close> is the early
  return.
\<close>

fun Write_loop ::
  "crypto \<Rightarrow> rand_Reader \<Rightarrow> bytes \<Rightarrow> nat \<Rightarrow> nat \<times> EncWriter
     \<Rightarrow> ((nat \<times> error) option \<times> nat \<times> EncWriter) go" where
  "Write_loop c rnd [] i st = Ret (None, st)"
| "Write_loop c rnd (b # p) i st =
     (case Write_body c rnd b st of
        Panic m \<Rightarrow> Panic m
      | Ret (Some err, st') \<Rightarrow> Ret (Some (i, err), st')
      | Ret (None, st') \<Rightarrow> Write_loop c rnd p (Suc i) st')"

definition Write ::
  "crypto \<Rightarrow> rand_Reader \<Rightarrow> nat \<times> EncWriter \<Rightarrow> bytes
     \<Rightarrow> (nat \<times> error option \<times> nat \<times> EncWriter) go" where
  "Write c rnd st p =
     (case Write_loop c rnd p 0 st of
        Panic m \<Rightarrow> Panic m
      | Ret (Some (i, err), st') \<Rightarrow> Ret (i, Some err, st')
      | Ret (None, st') \<Rightarrow>
          (case writeChunk c rnd st' of
             Panic m \<Rightarrow> Panic m
           | Ret (err, st'') \<Rightarrow> Ret (length p, err, st'')))"

section \<open>The streaming decryptor\<close>

record DecReader =
  in_r :: bytes
  buf_r :: bytes
  index :: nat
  secretKey_r :: bytes

definition NewReader :: "bytes \<Rightarrow> bytes \<Rightarrow> DecReader" where
  "NewReader sk r = \<lparr> in_r = r, buf_r = [], index = 0, secretKey_r = array_of 32 sk \<rparr>"

definition nextChunk :: "crypto \<Rightarrow> DecReader \<Rightarrow> error option \<times> DecReader" where
  "nextChunk c b =
     (case io_ReadFull (in_r b) 24 of
        (Inl e, r1) \<Rightarrow> (Some e, b\<lparr>in_r := r1\<rparr>)
      | (Inr nonce, r1) \<Rightarrow>
          (case io_ReadFull r1 8 of
             (Inl e, r2) \<Rightarrow> (Some e, b\<lparr>in_r := r2\<rparr>)
           | (Inr sz, r2) \<Rightarrow>
               (let chunkSize = le_nat sz in
                if chunkSize > maxChunkSize + 16 then (Some ErrChunkTooLarge, b\<lparr>in_r := r2\<rparr>)
                else
                  (case io_ReadFull r2 chunkSize of
                     (Inl e, r3) \<Rightarrow> (Some e, b\<lparr>in_r := r3\<rparr>)
                   | (Inr chunkData, r3) \<Rightarrow>
                       if length (secretKey_r b) \<noteq> 32 then (Some ErrKeySize, b\<lparr>in_r := r3\<rparr>)
                       else
                         (case Open c (secretKey_r b) nonce chunkData of
                            None \<Rightarrow> (Some ErrOpen, b\<lparr>in_r := r3\<rparr>)
                          | Some decryptedBytes \<Rightarrow>
                              (None, b\<lparr>in_r := r3, buf_r := decryptedBytes\<rparr>))))))"

text \<open>
  One iteration of the loop of \<open>Read\<close>: the next chunk is fetched when the cursor is 0,
  then one byte is served and the cursor moves on, back to 0 at the end of the chunk.
  Indexing \<open>b.buf\<close> out of range panics.
\<close>

definition Read_body :: "crypto \<Rightarrow> DecReader \<Rightarrow> ((error + byte) \<times> DecReader) go" where
  "Read_body c b =
     (case (if index b = 0 then nextChunk c b else (None, b)) of
        (Some err, b1) \<Rightarrow> Ret (Inl err, b1)
      | (None, b1) \<Rightarrow>
          if index b1 < length (buf_r b1) then
            (let x = buf_r b1 ! index b1;
                 b2 = b1\<lparr>index := index b1 + 1\<rparr>;
                 b3 = (if index b2 \<ge> length (buf_r b2) then b2\<lparr>index := 0\<rparr> else b2)
             in Ret (Inr x, b3))
          else Panic ''index out of range'')"

text \<open>
  \<open>Read\<close> on a request buffer of \<open>n\<close> bytes: the bytes put into \<open>p[0..read)\<close>, the
  error, and the reader afterwards.
\<close>

fun Read :: "crypto \<Rightarrow> DecReader \<Rightarrow> nat \<Rightarrow> (bytes \<times> error option \<times> DecReader) go" where
  "Read c b 0 = Ret ([], None, b)"
| "Read c b (Suc n) =
     (case Read_body c b of
        Panic m \<Rightarrow> Panic m
      | Ret (Inl err, b1) \<Rightarrow> Ret ([], Some err, b1)
      | Ret (Inr x, b3) \<Rightarrow>
          (case Read c b3 n of
             Panic m \<Rightarrow> Panic m
           | Ret (bs, err, b') \<Rightarrow> Ret (x # bs, err, b')))"

section \<open>\<open>io.Copy\<close>\<close>

text \<open>
  \<open>io.Copy(encWriter, input)\<close> for a file with unread content \<open>r\<close>: reads of up to 32 KiB,
  each non-empty read handed to \<open>Write\<close>, until the file is exhausted.
\<close>

definition copyBuf :: nat where
  "copyBuf = 32 * 1024"

function io_Copy_Write ::
  "crypto \<Rightarrow> rand_Reader \<Rightarrow> nat \<times> EncWriter \<Rightarrow> bytes \<Rightarrow> (error option \<times> nat \<times> EncWriter) go" where
  "io_Copy_Write c rnd st r =
     (if r = [] then Ret (None, st)
      else
        (case Write c rnd st (take copyBuf r) of
           Panic m \<Rightarrow> Panic m
         | Ret (nw, Some ew, st') \<Rightarrow> Ret (Some ew, st')
         | Ret (nw, None, st') \<Rightarrow>
             if length (take copyBuf r) \<noteq> nw then Ret (Some ErrShortWrite, st')
             else io_Copy_Write c rnd st' (drop copyBuf r)))"
  by pat_completeness auto
termination
  by (relation "measure (\<lambda>(c, rnd, st, r). length r)") (auto simp: copyBuf_def)


text \<open>
  \<open>io.Copy(output, inputReader)\<close>: \<open>Read\<close> on a 32 KiB buffer until it reports an error;
  \<open>EOF\<close> ends the copy without an error. Each \<open>Read\<close> that returns no error either
  consumes input or moves the cursor towards the end of the current chunk, so the loop ends.
\<close>

function io_Copy_Read ::
  "crypto \<Rightarrow> DecReader \<Rightarrow> sink \<Rightarrow> (error option \<times> DecReader \<times> sink) go" where
  "io_Copy_Read c b dst =
     (case Read c b copyBuf of
        Panic m \<Rightarrow> Panic m
      | Ret (bs, er, b') \<Rightarrow>
          (case (if bs \<noteq> [] then sink_Write dst bs else Inr dst) of
             Inl ew \<Rightarrow> Ret (Some ew, b', dst)
           | Inr dst' \<Rightarrow>
               (case er of
                  Some e \<Rightarrow> Ret (if e = EOF then None else Some e, b', dst')
                | None \<Rightarrow> io_Copy_Read c b' dst')))"
  by pat_completeness auto
termination
proof (relation "inv_image (less_than <*lex*> less_than)
          (\<lambda>(c, b, dst). (length (in_r b), if index b = 0 then 0 else length (buf_r b) - index b))",
       goal_cases)
  case 1
  show ?case by (intro wf_inv_image wf_lex_prod wf_less_than)
next
  case (2 c b dst x2 x y xa ya x2a)
  let ?mu = "\<lambda>b. (length (in_r b), if index b = 0 then 0 else length (buf_r b) - index b)"
  let ?R = "less_than <*lex*> less_than"
  have shrinks: "length (in_r b1) < length (in_r b)" if "nextChunk c b = (None, b1)" for b b1
    using that unfolding nextChunk_def io_ReadFull_def
    by (auto simp: Let_def split: prod.splits sum.splits if_splits option.splits)
  have body: "(?mu b3, ?mu b) \<in> ?R" if "Read_body c b = Ret (Inr x, b3)" for b x b3
  proof (cases "index b = 0")
    case True
    with that obtain b1 where nc: "nextChunk c b = (None, b1)"
      and b3: "b3 = (if length (buf_r b1) \<le> index b1 + 1 then b1\<lparr>index := 0\<rparr>
                     else b1\<lparr>index := index b1 + 1\<rparr>)"
      unfolding Read_body_def
      by (auto simp: Let_def split: prod.splits option.splits if_splits)
    from nc have "length (in_r b1) < length (in_r b)" by (rule shrinks)
    then show ?thesis by (auto simp: b3)
  next
    case False
    with that show ?thesis
      unfolding Read_body_def by (auto simp: Let_def split: if_splits)
  qed
  have step: "(n = 0 \<and> b' = b) \<or> (?mu b', ?mu b) \<in> ?R"
    if "Read c b n = Ret (bs, None, b')" for n b bs b'
    using that
  proof (induction n arbitrary: b bs b')
    case 0
    then show ?case by simp
  next
    case (Suc n)
    from Suc.prems obtain x b3 bs' where rb: "Read_body c b = Ret (Inr x, b3)"
      and rec: "Read c b3 n = Ret (bs', None, b')"
      by (auto split: go.splits sum.splits)
    have first: "(?mu b3, ?mu b) \<in> ?R" using rb by (rule body)
    have tr: "trans ?R" by (intro trans_lex_prod trans_less_than)
    from Suc.IH[OF rec] have "b' = b3 \<or> (?mu b', ?mu b3) \<in> ?R" by blast
    then have "(?mu b', ?mu b) \<in> ?R"
    proof
      assume eq: "b' = b3" show ?thesis unfolding eq by (rule first)
    next
      assume "(?mu b', ?mu b3) \<in> ?R"
      then show ?thesis using first by (rule transD[OF tr])
    qed
    then show ?case by (rule disjI2)
  qed
  from 2 have "Read c b copyBuf = Ret (x, None, ya)" by auto
  from step[OF this] have "(?mu ya, ?mu b) \<in> ?R" unfolding copyBuf_def by fastforce
  then show ?case by simp
qed

section \<open>The file orchestrator\<close>

text \<open>
  The machine the program runs on: the number of logical CPUs, the system's random source,
  the operating-system calls that fail, and the room left on the disk of the output file.
  The file system maps a path to the content of the file there.
\<close>

record env =
  NumCPU :: nat
  rand :: rand_Reader
  fails :: "oscall \<Rightarrow> bool"
  disk :: "nat option"

type_synonym fs = "string \<Rightarrow> bytes option"

text \<open>
  \<open>encryptFile\<close> on an input file of content \<open>input\<close>. The deferred \<open>os.Remove\<close> of the
  temporary file runs on every return after its creation. The writer handed to \<open>NewWriter\<close>
  is \<open>io.MultiWriter(hash, output)\<close>: its \<open>written\<close> is both what the hash has absorbed and
  what follows the header in the output file.
\<close>

definition encryptFile ::
  "crypto \<Rightarrow> env \<Rightarrow> fs \<Rightarrow> bytes \<Rightarrow> bytes \<Rightarrow> string \<Rightarrow> (error option \<times> fs) go" where
  "encryptFile c env files passphrase input finalOutput =
     (let temp = finalOutput @ ''.temp''; removed = files(temp := None) in
      if fails env CreateTemp then Ret (Some (ErrOS CreateTemp), files)
      else if fails env SeekInput then Ret (Some (ErrOS SeekInput), removed)
      else
        (case generateKey c (rand env) (NumCPU env) 0 passphrase of
           Panic m \<Rightarrow> Panic m
         | Ret (Inl e, k) \<Rightarrow> Ret (Some ErrGenerateKey, removed)
         | Ret (Inr (skb, header), k) \<Rightarrow>
             (let sk = array_of 32 (take 32 skb); macKey = array_of 32 (drop 32 skb) in
              case sink_Write \<lparr>written = [], room = disk env\<rparr> (binary_Write_header header) of
                Inl e \<Rightarrow> Ret (Some e, removed)
              | Inr output \<Rightarrow>
                  if length macKey > 64 then Ret (Some ErrKeySize, removed)
                  else
                    (case io_Copy_Write c (rand env)
                            (k, NewWriter sk \<lparr>written = [], room = room output\<rparr>) input of
                       Panic m \<Rightarrow> Panic m
                     | Ret (Some e, st) \<Rightarrow> Ret (Some e, removed)
                     | Ret (None, k', encWriter) \<Rightarrow>
                         (let mac = array_of 64
                                      (blake2b_512 c macKey (written (out encWriter)));
                              header' = header\<lparr>Tag := mac\<rparr>
                          in if fails env SeekOutput then Ret (Some (ErrOS SeekOutput), removed)
                             else if fails env RewriteHeader
                               then Ret (Some (ErrOS RewriteHeader), removed)
                             else if fails env Sync then Ret (Some (ErrOS Sync), removed)
                             else if fails env Close then Ret (Some (ErrOS Close), removed)
                             else if fails env Rename then Ret (Some (ErrOS Rename), removed)
                             else Ret (None,
                                    removed(finalOutput \<mapsto>
                                      binary_Write_header header'
                                        @ written (out encWriter))))))))"

text \<open>
  \<open>decryptFile\<close> on an input file of content \<open>input\<close>: the header, the MAC over everything
  after it, and only then the decryption into the temporary file.
\<close>

definition decryptFile ::
  "crypto \<Rightarrow> env \<Rightarrow> fs \<Rightarrow> bytes \<Rightarrow> bytes \<Rightarrow> string \<Rightarrow> (error option \<times> fs) go" where
  "decryptFile c env files passphrase input finalOutput =
     (let temp = finalOutput @ ''.temp''; removed = files(temp := None) in
      if fails env CreateTemp then Ret (Some (ErrOS CreateTemp), files)
      else if fails env SeekInput then Ret (Some (ErrOS SeekInput), removed)
      else
        (case binary_Read_header input of
           (Inl e, rest) \<Rightarrow> Ret (Some e, removed)
         | (Inr header, rest) \<Rightarrow>
             if fails env TellInput then Ret (Some (ErrOS TellInput), removed)
             else
               (let ciphertextOffset = length input - length rest in
                case IDKey c passphrase (Salt header) (ArgonTime header) (ArgonMemory header)
                       (ArgonLanes header) (keyLen + macLen) of
                  Panic m \<Rightarrow> Panic m
                | Ret skb \<Rightarrow>
                    (let sk = array_of 32 (take 32 skb); macKey = array_of 32 (drop 32 skb) in
                     if length macKey > 64 then Ret (Some ErrKeySize, removed)
                     else
                       (let mac = array_of 64 (blake2b_512 c macKey rest) in
                        if mac \<noteq> Tag header then Ret (Some errBadMAC, removed)
                        else if fails env SeekCiphertext
                          then Ret (Some (ErrOS SeekCiphertext), removed)
                        else
                          (case io_Copy_Read c (NewReader sk (drop ciphertextOffset input))
                                  \<lparr>written = [], room = disk env\<rparr> of
                             Panic m \<Rightarrow> Panic m
                           | Ret (Some e, b, output) \<Rightarrow> Ret (Some e, removed)
                           | Ret (None, b, output) \<Rightarrow>
                               if fails env Sync then Ret (Some (ErrOS Sync), removed)
                               else if fails env Close then Ret (Some (ErrOS Close), removed)
                               else if fails env Rename then Ret (Some (ErrOS Rename), removed)
                               else Ret (None,
                                      removed(finalOutput \<mapsto> written output))))))))"


section \<open>Notions used to state the properties\<close>

text \<open>
  The nonce that the \<open>k\<close>-th read of \<open>rand.Reader\<close> yields, and the chunk frame of a
  plaintext chunk: nonce, length of the sealed chunk as a little-endian \<open>uint64\<close>, sealed
  chunk.
\<close>

definition nonce_at :: "rand_Reader \<Rightarrow> nat \<Rightarrow> bytes" where
  "nonce_at rnd k = (case rand_ReadFull rnd k 24 of None \<Rightarrow> [] | Some nonce \<Rightarrow> nonce)"

definition frame :: "crypto \<Rightarrow> bytes \<Rightarrow> bytes \<Rightarrow> bytes \<Rightarrow> bytes" where
  "frame c key nonce chunk =
     nonce @ le_bytes 8 (length (Seal c key nonce chunk)) @ Seal c key nonce chunk"

fun frames :: "crypto \<Rightarrow> bytes \<Rightarrow> rand_Reader \<Rightarrow> nat \<Rightarrow> bytes list \<Rightarrow> bytes" where
  "frames c key rnd k [] = []"
| "frames c key rnd k (ch # chs) =
     frame c key (nonce_at rnd k) ch @ frames c key rnd (Suc k) chs"

text \<open>
  The expected chunking of the plaintext of one \<open>Write\<close> call: chunks of \<open>maxChunkSize\<close>
  bytes, then the rest (which is empty only when the whole plaintext is).
\<close>

function expected_chunks :: "bytes \<Rightarrow> bytes list" where
  "expected_chunks p =
     (if length p \<le> maxChunkSize then [p]
      else take maxChunkSize p # expected_chunks (drop maxChunkSize p))"
  by pat_completeness auto
termination
  by (relation "measure length") (auto simp: maxChunkSize_def)

text \<open>The expected chunking of a file copied through \<open>io.Copy\<close>: one \<open>Write\<close> per block.\<close>

function expected_file_chunks :: "bytes \<Rightarrow> bytes list" where
  "expected_file_chunks r =
     (if r = [] then []
      else expected_chunks (take copyBuf r) @ expected_file_chunks (drop copyBuf r))"
  by pat_completeness auto
termination
  by (relation "measure length") (auto simp: copyBuf_def)

text \<open>
  The states an encryptor passes through: a new writer, and from there every state that an
  iteration of the loop of \<open>Write\<close> or a call of \<open>writeChunk\<close> returns.
\<close>

inductive enc_reach :: "crypto \<Rightarrow> rand_Reader \<Rightarrow> nat \<times> EncWriter \<Rightarrow> bool"
  for c :: crypto and rnd :: rand_Reader where
  enc_new: "enc_reach c rnd (k, NewWriter sk s)"
| enc_body: "enc_reach c rnd st \<Longrightarrow> Write_body c rnd b st = Ret (e, st') \<Longrightarrow> enc_reach c rnd st'"
| enc_chunk: "enc_reach c rnd st \<Longrightarrow> writeChunk c rnd st = Ret (e, st') \<Longrightarrow> enc_reach c rnd st'"

text \<open>
  The states a decryptor passes through: a new reader, and from there every state that
  \<open>nextChunk\<close> or an iteration of the loop of \<open>Read\<close> returns.
\<close>

inductive dec_reach :: "crypto \<Rightarrow> DecReader \<Rightarrow> bool" for c :: crypto where
  dec_new: "dec_reach c (NewReader sk r)"
| dec_next: "dec_reach c b \<Longrightarrow> nextChunk c b = (e, b') \<Longrightarrow> dec_reach c b'"
| dec_body: "dec_reach c b \<Longrightarrow> Read_body c b = Ret (x, b') \<Longrightarrow> dec_reach c b'"

text \<open>
  The used-nonce set of a writer records exactly the nonces drawn since read \<open>k0\<close> of
  \<open>rand.Reader\<close>, and these are pairwise different.
\<close>

definition nonces_tracked :: "rand_Reader \<Rightarrow> nat \<Rightarrow> nat \<times> EncWriter \<Rightarrow> bool" where
  "nonces_tracked rnd k0 st =
     (case st of (k, w) \<Rightarrow>
        k0 \<le> k \<and> usedNonces w = nonce_at rnd ` {k0..<k} \<and> inj_on (nonce_at rnd) {k0..<k})"

text \<open>
  The random source works and does not repeat itself: each of the reads \<open>k, \<dots>, k + n - 1\<close>
  yields a nonce that is neither in \<open>used\<close> nor equal to an earlier one of them.
\<close>

definition good_draws :: "rand_Reader \<Rightarrow> bytes set \<Rightarrow> nat \<Rightarrow> nat \<Rightarrow> bool" where
  "good_draws rnd used k n =
     (\<forall>j. k \<le> j \<and> j < k + n \<longrightarrow>
        rand_ReadFull rnd j 24 \<noteq> None \<and> nonce_at rnd j \<notin> used
        \<and> (\<forall>j'. k \<le> j' \<and> j' < j \<longrightarrow> nonce_at rnd j' \<noteq> nonce_at rnd j))"

text \<open>
  The plaintext that a decryptor has decrypted and not yet served, and the condition under
  which it reads well-formed frames: its cursor is inside its chunk buffer, and its source
  holds the frames of the given nonces and non-empty chunks, sealed under its key.
\<close>

definition pending :: "DecReader \<Rightarrow> bytes" where
  "pending b = (if index b = 0 then [] else drop (index b) (buf_r b))"

definition reads_frames :: "crypto \<Rightarrow> bytes \<Rightarrow> DecReader \<Rightarrow> (bytes \<times> bytes) list \<Rightarrow> bool" where
  "reads_frames c key b items =
     (secretKey_r b = key \<and> (index b = 0 \<or> index b < length (buf_r b))
      \<and> in_r b = concat (map (\<lambda>(nonce, ch). frame c key nonce ch) items)
      \<and> (\<forall>(nonce, ch) \<in> set items.
            length nonce = 24 \<and> ch \<noteq> [] \<and> length ch \<le> maxChunkSize))"

text \<open>
  An instance of the primitives and of the machine on which the statements below are
  exercised: the sealed chunk is the plaintext followed by sixteen bytes, the MAC is the
  length of the message followed by the message.
\<close>

definition test_crypto :: crypto where
  "test_crypto =
     \<lparr> Seal = (\<lambda>key nonce p. p @ replicate 16 1),
       Open = (\<lambda>key nonce ct.
                 if 16 \<le> length ct \<and> drop (length ct - 16) ct = replicate 16 1
                 then Some (take (length ct - 16) ct) else None),
       blake2b_512 = (\<lambda>key m. of_nat (length m) # m),
       argon2id = (\<lambda>password salt time memory threads. password @ salt) \<rparr>"

definition test_env :: env where
  "test_env =
     \<lparr> NumCPU = 4, rand = (\<lambda>k. Some (replicate 32 (of_nat k))), fails = (\<lambda>call. False),
       disk = None \<rparr>"



section \<open>Basic facts\<close>

declare io_Copy_Write.simps [simp del]
declare io_Copy_Read.simps [simp del]
declare expected_chunks.simps [simp del]
declare expected_file_chunks.simps [simp del]

lemma length_le_bytes [simp]: "length (le_bytes n k) = n"
  by (induction n arbitrary: k) auto

lemma length_array_of [simp]: "length (array_of n xs) = n"
  by (auto simp: array_of_def)

lemma length_binary_Write_header [simp]: "length (binary_Write_header h) = 105"
  by (simp add: binary_Write_header_def)

lemma io_Copy_Write_Nil [simp]: "io_Copy_Write c rnd st [] = Ret (None, st)"
  by (subst io_Copy_Write.simps) simp

lemma io_Copy_Write_Cons:
  "io_Copy_Write c rnd st (x # xs) =
        (case Write c rnd st (take copyBuf (x # xs)) of
           Panic m \<Rightarrow> Panic m
         | Ret (nw, Some ew, st') \<Rightarrow> Ret (Some ew, st')
         | Ret (nw, None, st') \<Rightarrow>
             if length (take copyBuf (x # xs)) \<noteq> nw then Ret (Some ErrShortWrite, st')
             else io_Copy_Write c rnd st' (drop copyBuf (x # xs)))"
  by (subst io_Copy_Write.simps) simp

text \<open>The definitions to unfold when a run on a concrete input is evaluated.\<close>

lemmas eval_defs =
  encryptFile_def test_crypto_def test_env_def generateKey_def Let_def rand_ReadFull_def
  IDKey_def defaultArgonTime_def defaultArgonMemory_def defaultArgonLanes_def keyLen_def
  macLen_def sink_Write_def NewWriter_def copyBuf_def Write_def Write_body_def writeChunk_def
  maxChunkSize_def array_of_def binary_Write_header_def io_Copy_Write_Cons

section \<open>Key generation and the header\<close>

lemma generateKey_header:
  "generateKey c rnd n k pw = Ret (Inr (skb, header), k') \<Longrightarrow>
     length (Salt header) = 32 \<and> ArgonTime header = 4 \<and> ArgonMemory header = 4000000 \<and>
     ArgonLanes header = defaultArgonLanes n \<and> k' = Suc k \<and> length skb = 64"
  by (auto simp: generateKey_def rand_ReadFull_def IDKey_def Let_def defaultArgonTime_def
      defaultArgonMemory_def keyLen_def macLen_def
      split: option.splits if_splits go.splits)

text \<open>What a successful \<open>encryptFile\<close> has done.\<close>

lemma encryptFile_success:
  assumes "encryptFile c env files passphrase input finalOutput = Ret (None, files')"
  shows "\<exists>skb header k w.
           generateKey c (rand env) (NumCPU env) 0 passphrase = Ret (Inr (skb, header), Suc 0) \<and>
           io_Copy_Write c (rand env)
             (Suc 0, NewWriter (array_of 32 (take 32 skb))
                \<lparr>written = [], room = map_option (\<lambda>r. r - 105) (disk env)\<rparr>) input
               = Ret (None, k, w) \<and>
           files' = (files(finalOutput @ ''.temp'' := None))(finalOutput \<mapsto>
              binary_Write_header
                (header\<lparr>Tag := array_of 64
                    (blake2b_512 c (array_of 32 (drop 32 skb)) (written (out w)))\<rparr>)
              @ written (out w))"
proof -
  note ef = assms[unfolded encryptFile_def Let_def]
  have f1: "\<not> fails env CreateTemp" "\<not> fails env SeekInput"
    using ef by (auto split: if_splits)
  note ef1 = ef[simplified f1 if_False]
  obtain skb header k where gk:
    "generateKey c (rand env) (NumCPU env) 0 passphrase = Ret (Inr (skb, header), k)"
    using ef1 by (cases "generateKey c (rand env) (NumCPU env) 0 passphrase")
      (auto split: sum.splits prod.splits)
  from generateKey_header[OF gk] have k: "k = Suc 0" by simp
  note ef2 = ef1[unfolded gk go.case prod.case sum.case]
  obtain outp where sw:
    "sink_Write \<lparr>written = [], room = disk env\<rparr> (binary_Write_header header) = Inr outp"
    using ef2 by (cases "sink_Write \<lparr>written = [], room = disk env\<rparr> (binary_Write_header header)") auto
  then have room: "room outp = map_option (\<lambda>r. r - 105) (disk env)"
    by (auto simp: sink_Write_def split: option.splits if_splits)
  note ef3 = ef2[unfolded sw sum.case room k]
  have f2: "\<not> 64 < length (array_of 32 (drop 32 skb))"
    by simp
  note ef4 = ef3[simplified f2 if_False]
  obtain k' w where cp: "io_Copy_Write c (rand env)
             (Suc 0, NewWriter (array_of 32 (take 32 skb))
                \<lparr>written = [], room = map_option (\<lambda>r. r - 105) (disk env)\<rparr>) input
               = Ret (None, k', w)"
    using ef4 by (cases "io_Copy_Write c (rand env)
             (Suc 0, NewWriter (array_of 32 (take 32 skb))
                \<lparr>written = [], room = map_option (\<lambda>r. r - 105) (disk env)\<rparr>) input")
      (auto split: option.splits prod.splits)
  note ef5 = ef4[unfolded cp go.case prod.case option.case]
  have "files' = (files(finalOutput @ ''.temp'' := None))(finalOutput \<mapsto>
              binary_Write_header
                (header\<lparr>Tag := array_of 64
                    (blake2b_512 c (array_of 32 (drop 32 skb)) (written (out w)))\<rparr>)
              @ written (out w))"
    using ef5 by (simp split: if_splits)
  with gk k cp show ?thesis by blast
qed


text \<open>
  Claim C8, as far as the code goes: the lanes value is \<open>2 \<times> NumCPU\<close> only while that
  fits into a byte. On a machine with 128 logical CPUs the stored value would be 0, and
  \<open>generateKey\<close> panics inside \<open>argon2.IDKey\<close>.
\<close>

theorem defaultArgonLanes_128_zero:
  "defaultArgonLanes 128 = 0 \<and>
   generateKey c (\<lambda>k. Some (replicate 32 0)) 128 0 pw
     = Panic ''argon2: parallelism degree too low''"
  by (simp add: defaultArgonLanes_def generateKey_def rand_ReadFull_def IDKey_def
      defaultArgonTime_def)

lemma defaultArgonLanes_small:
  "n < 128 \<Longrightarrow> unat (defaultArgonLanes n) = 2 * n"
  unfolding defaultArgonLanes_def unat_of_nat by simp

text \<open>
  Claim C3, as stated, fails: the serialized header is not 141 bytes long.
\<close>

theorem header_size_counterexample:
  "length (binary_Write_header
      \<lparr> Salt = replicate 32 0, ArgonTime = 4, ArgonMemory = 4000000, ArgonLanes = 8,
        Tag = replicate 64 0 \<rparr>) \<noteq> 141"
  by (simp add: binary_Write_header_def)

section \<open>The streaming decryptor: frames and failures\<close>

lemma le_nat_le_bytes: "le_nat (le_bytes n k) = k mod 256 ^ n"
proof (induction n arbitrary: k)
  case 0
  then show ?case by simp
next
  case (Suc n)
  have "unat (of_nat (k mod 256) :: byte) = k mod 256"
    by (simp add: unat_of_nat)
  then show ?case
    by (simp add: Suc.IH mod_mult2_eq)
qed

lemma le_nat_le_bytes_8: "k < 2 ^ 64 \<Longrightarrow> le_nat (le_bytes 8 k) = k"
  by (simp add: le_nat_le_bytes)

lemma io_ReadFull_append:
  "length xs = n \<Longrightarrow> io_ReadFull (xs @ ys) n = (Inr xs, ys)"
  by (simp add: io_ReadFull_def)

text \<open>\<open>nextChunk\<close> on a source that starts with a well-formed frame.\<close>

lemma nextChunk_frame:
  assumes "length nonce = 24" "length ct \<le> maxChunkSize + 16" "length (secretKey_r b) = 32"
    and "in_r b = nonce @ le_bytes 8 (length ct) @ ct @ rest"
  shows "nextChunk c b =
     (case Open c (secretKey_r b) nonce ct of
        None \<Rightarrow> (Some ErrOpen, b\<lparr>in_r := rest\<rparr>)
      | Some d \<Rightarrow> (None, b\<lparr>in_r := rest, buf_r := d\<rparr>))"
proof -
  have lt: "length ct < 2 ^ 64" using assms(2) by (simp add: maxChunkSize_def)
  have r1: "io_ReadFull (in_r b) 24 = (Inr nonce, le_bytes 8 (length ct) @ ct @ rest)"
    unfolding assms(4) using assms(1) by (rule io_ReadFull_append)
  have r2: "io_ReadFull (le_bytes 8 (length ct) @ ct @ rest) 8 = (Inr (le_bytes 8 (length ct)), ct @ rest)"
    by (rule io_ReadFull_append) simp
  have r3: "io_ReadFull (ct @ rest) (length ct) = (Inr ct, rest)"
    by (rule io_ReadFull_append) simp
  show ?thesis
    unfolding nextChunk_def r1 prod.case sum.case r2 Let_def le_nat_le_bytes_8[OF lt]
    using assms(2,3) by (simp add: r3 split: option.splits)
qed

lemmas dec_eval_defs =
  nextChunk_def io_ReadFull_def Read_body_def NewReader_def test_crypto_def maxChunkSize_def
  array_of_def



lemma nextChunk_exhausted: "in_r b = [] \<Longrightarrow> nextChunk c b = (Some EOF, b)"
  unfolding nextChunk_def io_ReadFull_def by simp



text \<open>
  Claim C10, against the code: \<open>Read\<close> indexes \<open>b.buf[b.index]\<close> right after
  \<open>nextChunk\<close>, also when the chunk that was opened holds no plaintext. A stream that
  starts with such a frame makes every \<open>Read\<close> with a non-empty buffer panic; \<open>Write\<close>
  with an empty slice produces exactly such a frame.
\<close>

theorem Read_empty_chunk_panics:
  assumes "Open c (array_of 32 sk) nonce ct = Some []"
    and "length nonce = 24" and "length ct \<le> maxChunkSize + 16"
  shows "Read c (NewReader sk (nonce @ le_bytes 8 (length ct) @ ct @ rest)) (Suc n)
           = Panic ''index out of range''"
proof -
  let ?b = "NewReader sk (nonce @ le_bytes 8 (length ct) @ ct @ rest)"
  have "nextChunk c ?b = (None, ?b\<lparr>in_r := rest, buf_r := []\<rparr>)"
    using nextChunk_frame[of nonce ct ?b rest c] assms
    by (simp add: NewReader_def)
  then have "Read_body c ?b = Panic ''index out of range''"
    by (simp add: Read_body_def NewReader_def)
  then show ?thesis by simp
qed

theorem Read_empty_chunk_panics_witness:
  "Write test_crypto (rand test_env) (0, NewWriter [] \<lparr>written = [], room = None\<rparr>) []
     = Ret (0, None, 1,
         \<lparr>out = \<lparr>written = replicate 24 0 @ le_bytes 8 (length (replicate 16 (1::byte)))
                    @ replicate 16 1 @ [], room = None\<rparr>,
          buf = [], usedNonces = {replicate 24 0}, secretKey = replicate 32 0\<rparr>)
   \<and> Read test_crypto
       (NewReader [] (replicate 24 0 @ le_bytes 8 (length (replicate 16 (1::byte)))
          @ replicate 16 1 @ [])) (Suc 0)
       = Panic ''index out of range''"
proof -
  have w: "Write test_crypto (rand test_env) (0, NewWriter [] \<lparr>written = [], room = None\<rparr>) []
     = Ret (0, None, 1,
         \<lparr>out = \<lparr>written = replicate 24 0 @ le_bytes 8 (length (replicate 16 (1::byte)))
                    @ replicate 16 1 @ [], room = None\<rparr>,
          buf = [], usedNonces = {replicate 24 0}, secretKey = replicate 32 0\<rparr>)"
    by (simp add: eval_defs)
  have o: "Open test_crypto (array_of 32 []) (replicate 24 0) (replicate 16 1) = Some []"
    by (simp add: test_crypto_def)
  have "Read test_crypto
       (NewReader [] (replicate 24 0 @ le_bytes 8 (length (replicate 16 (1::byte)))
          @ replicate 16 1 @ [])) (Suc 0)
       = Panic ''index out of range''"
    by (rule Read_empty_chunk_panics[OF o]) (simp_all add: maxChunkSize_def)
  with w show ?thesis by simp
qed






section \<open>The streaming encryptor: chunks and nonces\<close>

lemma maxChunkSize_pos: "0 < maxChunkSize"
  by (simp add: maxChunkSize_def)

lemma expected_chunks_small: "length p \<le> maxChunkSize \<Longrightarrow> expected_chunks p = [p]"
  by (subst expected_chunks.simps) simp

lemma expected_chunks_large:
  "\<not> length p \<le> maxChunkSize \<Longrightarrow>
     expected_chunks p = take maxChunkSize p # expected_chunks (drop maxChunkSize p)"
  by (subst expected_chunks.simps) simp

lemma expected_chunks_not_Nil [simp]: "expected_chunks p \<noteq> []"
  by (subst expected_chunks.simps) simp

lemma concat_expected_chunks [simp]: "concat (expected_chunks p) = p"
proof (induction p rule: expected_chunks.induct)
  case (1 p)
  show ?case
  proof (cases "length p \<le> maxChunkSize")
    case True
    then show ?thesis by (simp add: expected_chunks_small)
  next
    case False
    from 1[OF False] show ?thesis
      unfolding expected_chunks_large[OF False] by simp
  qed
qed

lemma expected_chunks_bounded: "ch \<in> set (expected_chunks p) \<Longrightarrow> length ch \<le> maxChunkSize"
proof (induction p rule: expected_chunks.induct)
  case (1 p)
  show ?case
  proof (cases "length p \<le> maxChunkSize")
    case True
    with "1.prems" show ?thesis by (simp add: expected_chunks_small)
  next
    case False
    from "1.prems" have "ch = take maxChunkSize p \<or> ch \<in> set (expected_chunks (drop maxChunkSize p))"
      unfolding expected_chunks_large[OF False] by simp
    then show ?thesis
    proof
      assume "ch = take maxChunkSize p" then show ?thesis by simp
    next
      assume "ch \<in> set (expected_chunks (drop maxChunkSize p))"
      then show ?thesis by (rule "1.IH"[OF False])
    qed
  qed
qed

lemma expected_chunks_nonempty:
  "p \<noteq> [] \<Longrightarrow> ch \<in> set (expected_chunks p) \<Longrightarrow> ch \<noteq> []"
proof (induction p rule: expected_chunks.induct)
  case (1 p)
  show ?case
  proof (cases "length p \<le> maxChunkSize")
    case True
    with "1.prems" show ?thesis by (simp add: expected_chunks_small)
  next
    case False
    then have d: "drop maxChunkSize p \<noteq> []" by simp
    from "1.prems" have "ch = take maxChunkSize p \<or> ch \<in> set (expected_chunks (drop maxChunkSize p))"
      unfolding expected_chunks_large[OF False] by simp
    then show ?thesis
    proof
      assume "ch = take maxChunkSize p"
      with "1.prems"(1) maxChunkSize_pos show ?thesis by simp
    next
      assume "ch \<in> set (expected_chunks (drop maxChunkSize p))"
      with d show ?thesis by (rule "1.IH"[OF False])
    qed
  qed
qed

lemma expected_chunks_one_more:
  assumes l: "length p = maxChunkSize + 1"
  shows "expected_chunks p = [take maxChunkSize p, drop maxChunkSize p]"
proof -
  from l have "length (drop maxChunkSize p) \<le> maxChunkSize" using maxChunkSize_pos by simp
  then have "expected_chunks (drop maxChunkSize p) = [drop maxChunkSize p]"
    by (rule expected_chunks_small)
  moreover from l have "\<not> length p \<le> maxChunkSize" by simp
  ultimately show ?thesis by (simp add: expected_chunks_large)
qed

lemma frames_append:
  "frames c key rnd k (xs @ ys) = frames c key rnd k xs @ frames c key rnd (k + length xs) ys"
  by (induction xs arbitrary: k) auto

lemma sink_Write_Inr:
  "sink_Write s p = Inr s' \<Longrightarrow> written s' = written s @ p"
  by (auto simp: sink_Write_def split: option.splits if_splits)

lemma sink_Write_unbounded:
  "room s = None \<Longrightarrow> sink_Write s p = Inr (s\<lparr>written := written s @ p\<rparr>)"
  by (simp add: sink_Write_def)

text \<open>\<open>writeChunk\<close> once the nonce has been drawn and found fresh.\<close>

lemma writeChunk_drawn:
  assumes "rand_ReadFull rnd k 24 = Some nonce" "nonce \<notin> usedNonces w"
  shows "writeChunk c rnd (k, w) =
     (if length (secretKey w) \<noteq> 32
      then Ret (Some ErrKeySize, Suc k, w\<lparr>usedNonces := insert nonce (usedNonces w)\<rparr>)
      else
        (case sink_Write (out w) nonce of
           Inl e \<Rightarrow> Ret (Some e, Suc k, w\<lparr>usedNonces := insert nonce (usedNonces w), buf := []\<rparr>)
         | Inr o1 \<Rightarrow>
             (case sink_Write o1 (le_bytes 8 (length (Seal c (secretKey w) nonce (buf w)))) of
                Inl e \<Rightarrow>
                  Ret (Some e, Suc k,
                    w\<lparr>usedNonces := insert nonce (usedNonces w), buf := [], out := o1\<rparr>)
              | Inr o2 \<Rightarrow>
                  (case sink_Write o2 (Seal c (secretKey w) nonce (buf w)) of
                     Inl e \<Rightarrow>
                       Ret (Some e, Suc k,
                         w\<lparr>usedNonces := insert nonce (usedNonces w), buf := [], out := o2\<rparr>)
                   | Inr o3 \<Rightarrow>
                       Ret (None, Suc k,
                         w\<lparr>usedNonces := insert nonce (usedNonces w), buf := [],
                           out := o3\<rparr>)))))"
  using assms by (simp add: writeChunk_def Let_def)

lemma writeChunk_draws:
  assumes "writeChunk c rnd (k, w) = Ret (e, k', w')"
  shows "rand_ReadFull rnd k 24 = Some (nonce_at rnd k) \<and> nonce_at rnd k \<notin> usedNonces w"
proof -
  from assms obtain nonce where r: "rand_ReadFull rnd k 24 = Some nonce"
    unfolding writeChunk_def by (auto split: option.splits)
  then have n: "nonce_at rnd k = nonce" by (simp add: nonce_at_def)
  from assms r have "nonce \<notin> usedNonces w"
    unfolding writeChunk_def by (auto split: if_splits)
  with r n show ?thesis by simp
qed

lemma writeChunk_Ret:
  assumes "writeChunk c rnd (k, w) = Ret (e, k', w')"
  shows "k' = Suc k \<and> rand_ReadFull rnd k 24 = Some (nonce_at rnd k)
         \<and> nonce_at rnd k \<notin> usedNonces w
         \<and> usedNonces w' = insert (nonce_at rnd k) (usedNonces w)
         \<and> secretKey w' = secretKey w \<and> (buf w' = buf w \<or> buf w' = [])"
proof -
  let ?n = "nonce_at rnd k"
  from writeChunk_draws[OF assms] have r: "rand_ReadFull rnd k 24 = Some ?n"
    and fresh: "?n \<notin> usedNonces w" by auto
  note wc = assms[unfolded writeChunk_drawn[OF r fresh]]
  have "k' = Suc k \<and> usedNonces w' = insert ?n (usedNonces w)
         \<and> secretKey w' = secretKey w \<and> (buf w' = buf w \<or> buf w' = [])"
  proof (cases "length (secretKey w) = 32")
    case False
    with wc show ?thesis by auto
  next
    case True
    show ?thesis
    proof (cases "sink_Write (out w) ?n")
      case (Inl e1)
      with wc True show ?thesis by auto
    next
      case (Inr o1)
      show ?thesis
      proof (cases "sink_Write o1 (le_bytes 8 (length (Seal c (secretKey w) ?n (buf w))))")
        case (Inl e2)
        with wc True Inr show ?thesis by auto
      next
        case o2: (Inr o2)
        show ?thesis
        proof (cases "sink_Write o2 (Seal c (secretKey w) ?n (buf w))")
          case (Inl e3)
          with wc True Inr o2 show ?thesis by auto
        next
          case o3: (Inr o3)
          with wc True Inr o2 show ?thesis by auto
        qed
      qed
    qed
  qed
  with r fresh show ?thesis by simp
qed

lemma writeChunk_success:
  assumes "writeChunk c rnd (k, w) = Ret (None, k', w')"
  shows "buf w' = [] \<and> length (secretKey w) = 32
         \<and> written (out w') = written (out w) @ frame c (secretKey w) (nonce_at rnd k) (buf w)"
proof -
  let ?n = "nonce_at rnd k"
  from writeChunk_draws[OF assms] have r: "rand_ReadFull rnd k 24 = Some ?n"
    and fresh: "?n \<notin> usedNonces w" by auto
  note wc = assms[unfolded writeChunk_drawn[OF r fresh]]
  show ?thesis
  proof (cases "length (secretKey w) = 32")
    case False
    with wc show ?thesis by auto
  next
    case True
    show ?thesis
    proof (cases "sink_Write (out w) ?n")
      case (Inl e1)
      with wc True show ?thesis by auto
    next
      case (Inr o1)
      show ?thesis
      proof (cases "sink_Write o1 (le_bytes 8 (length (Seal c (secretKey w) ?n (buf w))))")
        case (Inl e2)
        with wc True Inr show ?thesis by auto
      next
        case o2: (Inr o2)
        show ?thesis
        proof (cases "sink_Write o2 (Seal c (secretKey w) ?n (buf w))")
          case (Inl e3)
          with wc True Inr o2 show ?thesis by auto
        next
          case o3: (Inr o3)
          from sink_Write_Inr[OF Inr] sink_Write_Inr[OF o2] sink_Write_Inr[OF o3]
          have "written o3 = written (out w) @ frame c (secretKey w) ?n (buf w)"
            by (simp add: frame_def)
          with wc True Inr o2 o3 show ?thesis by auto
        qed
      qed
    qed
  qed
qed

lemma writeChunk_unbounded:
  assumes "rand_ReadFull rnd k 24 = Some nonce" "nonce \<notin> usedNonces w"
    and "length (secretKey w) = 32" "room (out w) = None"
  shows "writeChunk c rnd (k, w) =
           Ret (None, Suc k,
             w\<lparr>usedNonces := insert nonce (usedNonces w), buf := [],
               out := (out w)\<lparr>written := written (out w)
                                  @ frame c (secretKey w) nonce (buf w)\<rparr>\<rparr>)"
  using assms
  by (simp add: writeChunk_drawn sink_Write_unbounded frame_def)

lemma Write_body_full:
  "length (buf w) = maxChunkSize \<Longrightarrow>
   Write_body c rnd b (k, w) =
     (case writeChunk c rnd (k, w) of
        Panic m \<Rightarrow> Panic m
      | Ret (Some err, st') \<Rightarrow> Ret (Some err, st')
      | Ret (None, k', w') \<Rightarrow> Ret (None, k', w'\<lparr>buf := buf w' @ [b]\<rparr>))"
  by (simp add: Write_body_def)

lemma Write_body_room:
  "length (buf w) \<noteq> maxChunkSize \<Longrightarrow>
   Write_body c rnd b (k, w) = Ret (None, k, w\<lparr>buf := buf w @ [b]\<rparr>)"
  by (simp add: Write_body_def)

lemma Write_body_success:
  assumes "Write_body c rnd b (k, w) = Ret (None, k', w')"
  shows "(length (buf w) = maxChunkSize \<and>
            (\<exists>w1. writeChunk c rnd (k, w) = Ret (None, k', w1) \<and> w' = w1\<lparr>buf := buf w1 @ [b]\<rparr>))
         \<or> (length (buf w) \<noteq> maxChunkSize \<and> k' = k \<and> w' = w\<lparr>buf := buf w @ [b]\<rparr>)"
proof (cases "length (buf w) = maxChunkSize")
  case True
  from assms[unfolded Write_body_full[OF True]] True show ?thesis
    by (auto split: go.splits option.splits)
next
  case False
  from assms[unfolded Write_body_room[OF False]] False show ?thesis by auto
qed

lemma butlast_last_expected_chunks:
  "butlast (expected_chunks p) @ [last (expected_chunks p)] = expected_chunks p"
  by simp

text \<open>
  The loop of \<open>Write\<close>: the chunks written out are all but the last of the expected chunks
  of the buffered bytes followed by \<open>p\<close>; the last one is left in the buffer.
\<close>

lemma Write_loop_success:
  assumes "length (buf w) \<le> maxChunkSize"
    and "Write_loop c rnd p i (k, w) = Ret (None, k', w')"
  shows "written (out w') = written (out w)
             @ frames c (secretKey w) rnd k (butlast (expected_chunks (buf w @ p)))
         \<and> buf w' = last (expected_chunks (buf w @ p))
         \<and> k' = k + length (butlast (expected_chunks (buf w @ p)))
         \<and> secretKey w' = secretKey w"
  using assms
proof (induction p arbitrary: i k w)
  case Nil
  then show ?case by (simp add: expected_chunks_small)
next
  case (Cons b p)
  from Cons.prems(2) obtain k1 w1 where body: "Write_body c rnd b (k, w) = Ret (None, k1, w1)"
    and rest: "Write_loop c rnd p (Suc i) (k1, w1) = Ret (None, k', w')"
    by (auto split: go.splits option.splits)
  from Write_body_success[OF body] show ?case
  proof (elim disjE conjE exE)
    fix w0
    assume full: "length (buf w) = maxChunkSize"
      and wc: "writeChunk c rnd (k, w) = Ret (None, k1, w0)"
      and w1: "w1 = w0\<lparr>buf := buf w0 @ [b]\<rparr>"
    from writeChunk_success[OF wc] writeChunk_Ret[OF wc]
    have b0: "buf w0 = []" and k1: "k1 = Suc k" and key: "secretKey w0 = secretKey w"
      and wr: "written (out w0) = written (out w) @ frame c (secretKey w) (nonce_at rnd k) (buf w)"
      by auto
    have l1: "length (buf w1) \<le> maxChunkSize"
      using maxChunkSize_pos by (simp add: w1 b0)
    note ih = Cons.IH[OF l1 rest]
    have big: "\<not> length (buf w @ b # p) \<le> maxChunkSize" using full by simp
    have ec: "expected_chunks (buf w @ b # p) = buf w # expected_chunks (b # p)"
      unfolding expected_chunks_large[OF big] using full by simp
    from ih show ?thesis
      unfolding ec by (simp add: w1 b0 k1 key wr)
  next
    assume nf: "length (buf w) \<noteq> maxChunkSize" and k1: "k1 = k"
      and w1: "w1 = w\<lparr>buf := buf w @ [b]\<rparr>"
    have l1: "length (buf w1) \<le> maxChunkSize"
      using nf Cons.prems(1) by (simp add: w1)
    from Cons.IH[OF l1 rest] show ?thesis
      by (simp add: w1 k1)
  qed
qed

lemma good_draws_0 [simp]: "good_draws rnd used k 0"
  by (auto simp: good_draws_def)

lemma good_draws_mono: "good_draws rnd used k n \<Longrightarrow> m \<le> n \<Longrightarrow> good_draws rnd used k m"
  by (auto simp: good_draws_def)

lemma good_draws_Suc:
  assumes "good_draws rnd used k (Suc n)"
  shows "rand_ReadFull rnd k 24 = Some (nonce_at rnd k) \<and> nonce_at rnd k \<notin> used
         \<and> good_draws rnd (insert (nonce_at rnd k) used) (Suc k) n"
proof -
  from assms have a: "rand_ReadFull rnd k 24 \<noteq> None" and b: "nonce_at rnd k \<notin> used"
    by (auto simp: good_draws_def)
  from a have c: "rand_ReadFull rnd k 24 = Some (nonce_at rnd k)"
    by (auto simp: nonce_at_def)
  have "good_draws rnd (insert (nonce_at rnd k) used) (Suc k) n"
    unfolding good_draws_def
  proof (intro allI impI)
    fix j assume j: "Suc k \<le> j \<and> j < Suc k + n"
    then have j': "k \<le> j \<and> j < k + Suc n" by simp
    from assms[unfolded good_draws_def, rule_format, OF j']
    have 1: "rand_ReadFull rnd j 24 \<noteq> None" and 2: "nonce_at rnd j \<notin> used"
      and 3: "\<forall>j'. k \<le> j' \<and> j' < j \<longrightarrow> nonce_at rnd j' \<noteq> nonce_at rnd j" by auto
    from 3 j have "nonce_at rnd k \<noteq> nonce_at rnd j" by auto
    with 1 2 3 show "rand_ReadFull rnd j 24 \<noteq> None \<and>
         nonce_at rnd j \<notin> insert (nonce_at rnd k) used \<and>
         (\<forall>j'. Suc k \<le> j' \<and> j' < j \<longrightarrow> nonce_at rnd j' \<noteq> nonce_at rnd j)"
      by auto
  qed
  with b c show ?thesis by simp
qed

lemma good_draws_add:
  "good_draws rnd used k (m + n) \<Longrightarrow>
     good_draws rnd (used \<union> nonce_at rnd ` {k..<k + m}) (k + m) n"
proof (induction m arbitrary: used k)
  case 0
  then show ?case by simp
next
  case (Suc m)
  from Suc.prems have "good_draws rnd used k (Suc (m + n))" by simp
  from good_draws_Suc[OF this]
  have "good_draws rnd (insert (nonce_at rnd k) used) (Suc k) (m + n)" by simp
  from Suc.IH[OF this]
  have g: "good_draws rnd (insert (nonce_at rnd k) used \<union> nonce_at rnd ` {Suc k..<Suc k + m})
            (Suc k + m) n" .
  have "{k..<k + Suc m} = insert k {Suc k..<Suc k + m}" by auto
  then have "used \<union> nonce_at rnd ` {k..<k + Suc m}
            = insert (nonce_at rnd k) used \<union> nonce_at rnd ` {Suc k..<Suc k + m}" by auto
  with g show ?case by simp
qed

text \<open>
  With a working random source, a 32-byte key and a sink without limit, the loop of \<open>Write\<close>
  runs to its end.
\<close>

lemma atLeastLessThan_Suc_front: "{k..<k + Suc n} = insert k {Suc k..<Suc k + n}"
  by auto

lemma atLeastLessThan_Suc_back: "{k..<k + Suc n} = insert (k + n) {k..<k + n}"
  by auto

lemma Write_loop_runs:
  assumes "length (buf w) \<le> maxChunkSize" "length (secretKey w) = 32" "room (out w) = None"
    and "good_draws rnd (usedNonces w) k (length (butlast (expected_chunks (buf w @ p))))"
  shows "\<exists>w'. Write_loop c rnd p i (k, w)
               = Ret (None, k + length (butlast (expected_chunks (buf w @ p))), w')
           \<and> room (out w') = None
           \<and> usedNonces w' = usedNonces w
               \<union> nonce_at rnd ` {k..<k + length (butlast (expected_chunks (buf w @ p)))}"
  using assms
proof (induction p arbitrary: i k w)
  case Nil
  then show ?case by (simp add: expected_chunks_small)
next
  case (Cons b p)
  show ?case
  proof (cases "length (buf w) = maxChunkSize")
    case True
    define m where "m = length (butlast (expected_chunks (b # p)))"
    have big: "\<not> length (buf w @ b # p) \<le> maxChunkSize" using True by simp
    have ec: "expected_chunks (buf w @ b # p) = buf w # expected_chunks (b # p)"
      unfolding expected_chunks_large[OF big] using True by simp
    have bl: "length (butlast (expected_chunks (buf w @ b # p))) = Suc m"
      unfolding ec m_def by simp
    from Cons.prems(4)[unfolded bl]
    have gd: "good_draws rnd (usedNonces w) k (Suc m)" .
    note g = good_draws_Suc[OF gd]
    define w0 where "w0 = w\<lparr>usedNonces := insert (nonce_at rnd k) (usedNonces w), buf := [],
               out := (out w)\<lparr>written := written (out w)
                                  @ frame c (secretKey w) (nonce_at rnd k) (buf w)\<rparr>\<rparr>"
    have wc: "writeChunk c rnd (k, w) = Ret (None, Suc k, w0)"
      unfolding w0_def using g Cons.prems(2,3) by (intro writeChunk_unbounded) auto
    define w1 where "w1 = w0\<lparr>buf := buf w0 @ [b]\<rparr>"
    have body: "Write_body c rnd b (k, w) = Ret (None, Suc k, w1)"
      unfolding Write_body_full[OF True] wc w1_def by simp
    have b1: "buf w1 = [b]" by (simp add: w1_def w0_def)
    have l1: "length (buf w1) \<le> maxChunkSize" using maxChunkSize_pos by (simp add: b1)
    have k1: "length (secretKey w1) = 32" using Cons.prems(2) by (simp add: w1_def w0_def)
    have r1: "room (out w1) = None" using Cons.prems(3) by (simp add: w1_def w0_def)
    have u1: "usedNonces w1 = insert (nonce_at rnd k) (usedNonces w)"
      by (simp add: w1_def w0_def)
    have m1: "length (butlast (expected_chunks (buf w1 @ p))) = m"
      by (simp add: b1 m_def)
    have gd1: "good_draws rnd (usedNonces w1) (Suc k)
                 (length (butlast (expected_chunks (buf w1 @ p))))"
      unfolding m1 u1 using g by simp
    from Cons.IH[OF l1 k1 r1 gd1, of "Suc i", unfolded m1]
    obtain w' where loop: "Write_loop c rnd p (Suc i) (Suc k, w1) = Ret (None, Suc k + m, w')"
      and r: "room (out w') = None"
      and u: "usedNonces w' = usedNonces w1 \<union> nonce_at rnd ` {Suc k..<Suc k + m}"
      by blast
    have 1: "Write_loop c rnd (b # p) i (k, w) = Ret (None, k + Suc m, w')"
      using loop by (simp add: body)
    have 2: "usedNonces w' = usedNonces w \<union> nonce_at rnd ` {k..<k + Suc m}"
      unfolding u u1 atLeastLessThan_Suc_front by simp
    from 1 2 r show ?thesis unfolding bl by blast
  next
    case False
    define w1 where "w1 = w\<lparr>buf := buf w @ [b]\<rparr>"
    have body: "Write_body c rnd b (k, w) = Ret (None, k, w1)"
      unfolding w1_def by (rule Write_body_room[OF False])
    have l1: "length (buf w1) \<le> maxChunkSize" using False Cons.prems(1) by (simp add: w1_def)
    have k1: "length (secretKey w1) = 32" using Cons.prems(2) by (simp add: w1_def)
    have r1: "room (out w1) = None" using Cons.prems(3) by (simp add: w1_def)
    have e: "buf w1 @ p = buf w @ b # p" by (simp add: w1_def)
    have u1: "usedNonces w1 = usedNonces w" by (simp add: w1_def)
    have gd1: "good_draws rnd (usedNonces w1) k
                 (length (butlast (expected_chunks (buf w1 @ p))))"
      unfolding e u1 by (rule Cons.prems(4))
    from Cons.IH[OF l1 k1 r1 gd1, of "Suc i", unfolded e u1]
    show ?thesis by (simp add: body)
  qed
qed

lemma Write_runs:
  assumes "buf w = []" "length (secretKey w) = 32" "room (out w) = None"
    and "good_draws rnd (usedNonces w) k (length (expected_chunks p))"
  shows "\<exists>w'. Write c rnd (k, w) p = Ret (length p, None, k + length (expected_chunks p), w')
           \<and> room (out w') = None
           \<and> usedNonces w' = usedNonces w \<union> nonce_at rnd ` {k..<k + length (expected_chunks p)}"
proof -
  define m where "m = length (butlast (expected_chunks p))"
  have len: "length (expected_chunks p) = Suc m"
    unfolding m_def by (simp add: Suc_pred)
  have e: "buf w @ p = p" using assms(1) by simp
  have "good_draws rnd (usedNonces w) k m"
    using assms(4) unfolding len by (rule good_draws_mono) simp
  then have gd: "good_draws rnd (usedNonces w) k (length (butlast (expected_chunks (buf w @ p))))"
    unfolding e m_def .
  have l0: "length (buf w) \<le> maxChunkSize" using assms(1) by simp
  from Write_loop_runs[OF l0 assms(2,3) gd, of c 0, unfolded e, folded m_def]
  obtain w1 where loop: "Write_loop c rnd p 0 (k, w) = Ret (None, k + m, w1)"
    and r1: "room (out w1) = None"
    and u1: "usedNonces w1 = usedNonces w \<union> nonce_at rnd ` {k..<k + m}"
    by blast
  from Write_loop_success[OF l0 loop]
  have key1: "secretKey w1 = secretKey w" by simp
  from assms(4) have "good_draws rnd (usedNonces w) k (m + Suc 0)" by (simp add: len)
  from good_draws_add[OF this] have "good_draws rnd (usedNonces w1) (k + m) (Suc 0)"
    by (simp add: u1)
  note g = good_draws_Suc[OF this]
  define w' where "w' = w1\<lparr>usedNonces := insert (nonce_at rnd (k + m)) (usedNonces w1), buf := [],
               out := (out w1)\<lparr>written := written (out w1)
                                  @ frame c (secretKey w1) (nonce_at rnd (k + m)) (buf w1)\<rparr>\<rparr>"
  have wc: "writeChunk c rnd (k + m, w1) = Ret (None, Suc (k + m), w')"
    unfolding w'_def using g r1 key1 assms(2) by (intro writeChunk_unbounded) auto
  have 1: "Write c rnd (k, w) p = Ret (length p, None, k + Suc m, w')"
    by (simp add: Write_def loop wc)
  have 2: "room (out w') = None" using r1 by (simp add: w'_def)
  have 3: "usedNonces w' = usedNonces w \<union> nonce_at rnd ` {k..<k + Suc m}"
    unfolding atLeastLessThan_Suc_back by (simp add: w'_def u1)
  from 1 2 3 show ?thesis unfolding len by blast
qed

lemma copyBuf_pos: "0 < copyBuf"
  by (simp add: copyBuf_def)

lemma expected_file_chunks_Nil [simp]: "expected_file_chunks [] = []"
  by (subst expected_file_chunks.simps) simp

lemma expected_file_chunks_step:
  "r \<noteq> [] \<Longrightarrow>
     expected_file_chunks r
       = expected_chunks (take copyBuf r) @ expected_file_chunks (drop copyBuf r)"
  by (subst expected_file_chunks.simps) simp

lemma io_Copy_Write_step:
  "r \<noteq> [] \<Longrightarrow>
   io_Copy_Write c rnd st r =
        (case Write c rnd st (take copyBuf r) of
           Panic m \<Rightarrow> Panic m
         | Ret (nw, Some ew, st') \<Rightarrow> Ret (Some ew, st')
         | Ret (nw, None, st') \<Rightarrow>
             if length (take copyBuf r) \<noteq> nw then Ret (Some ErrShortWrite, st')
             else io_Copy_Write c rnd st' (drop copyBuf r))"
  by (subst io_Copy_Write.simps) simp

lemma concat_expected_file_chunks [simp]: "concat (expected_file_chunks r) = r"
proof (induction r rule: expected_file_chunks.induct)
  case (1 r)
  show ?case
  proof (cases "r = []")
    case True
    then show ?thesis by simp
  next
    case False
    from 1[OF False] show ?thesis
      unfolding expected_file_chunks_step[OF False] by simp
  qed
qed

lemma expected_file_chunks_sizes:
  "ch \<in> set (expected_file_chunks r) \<Longrightarrow> ch \<noteq> [] \<and> length ch \<le> maxChunkSize"
proof (induction r rule: expected_file_chunks.induct)
  case (1 r)
  show ?case
  proof (cases "r = []")
    case True
    with "1.prems" show ?thesis by simp
  next
    case False
    then have t: "take copyBuf r \<noteq> []" using copyBuf_pos by simp
    from "1.prems" have "ch \<in> set (expected_chunks (take copyBuf r))
        \<or> ch \<in> set (expected_file_chunks (drop copyBuf r))"
      unfolding expected_file_chunks_step[OF False] by simp
    then show ?thesis
    proof
      assume "ch \<in> set (expected_chunks (take copyBuf r))"
      with expected_chunks_nonempty[OF t] expected_chunks_bounded show ?thesis by blast
    next
      assume "ch \<in> set (expected_file_chunks (drop copyBuf r))"
      then show ?thesis by (rule "1.IH"[OF False])
    qed
  qed
qed

text \<open>What a successful \<open>Write\<close> on an empty buffer has done.\<close>

lemma Write_success:
  assumes "buf w = []" and "Write c rnd (k, w) p = Ret (n, None, k', w')"
  shows "written (out w') = written (out w) @ frames c (secretKey w) rnd k (expected_chunks p)
       \<and> k' = k + length (expected_chunks p) \<and> buf w' = [] \<and> secretKey w' = secretKey w
       \<and> n = length p"
proof -
  from assms(2) obtain k1 w1 where loop: "Write_loop c rnd p 0 (k, w) = Ret (None, k1, w1)"
    and wc: "writeChunk c rnd (k1, w1) = Ret (None, k', w')" and n: "n = length p"
    unfolding Write_def by (auto split: go.splits option.splits prod.splits)
  have "length (buf w) \<le> maxChunkSize" using assms(1) by simp
  from Write_loop_success[OF this loop] assms(1)
  have wr1: "written (out w1) = written (out w)
               @ frames c (secretKey w) rnd k (butlast (expected_chunks p))"
    and b1: "buf w1 = last (expected_chunks p)"
    and k1: "k1 = k + length (butlast (expected_chunks p))"
    and key: "secretKey w1 = secretKey w" by auto
  from writeChunk_success[OF wc] writeChunk_Ret[OF wc]
  have k': "k' = Suc k1" and b': "buf w' = []" and key': "secretKey w' = secretKey w1"
    and wr: "written (out w') = written (out w1) @ frame c (secretKey w1) (nonce_at rnd k1) (buf w1)"
    by auto
  have "frames c (secretKey w) rnd k (butlast (expected_chunks p) @ [last (expected_chunks p)])
          = frames c (secretKey w) rnd k (butlast (expected_chunks p))
              @ frame c (secretKey w) (nonce_at rnd k1) (last (expected_chunks p))"
    unfolding frames_append k1 by simp
  then have 1: "written (out w') = written (out w)
                  @ frames c (secretKey w) rnd k (expected_chunks p)"
    by (simp add: wr wr1 b1 key)
  have "length (expected_chunks p) = Suc (length (butlast (expected_chunks p)))"
    by (simp add: Suc_pred)
  then have 2: "k' = k + length (expected_chunks p)" by (simp add: k' k1)
  from 1 2 b' key key' n show ?thesis by simp
qed

lemma io_Copy_Write_success:
  assumes "buf w = []" and "io_Copy_Write c rnd (k, w) r = Ret (None, k', w')"
  shows "written (out w') = written (out w)
             @ frames c (secretKey w) rnd k (expected_file_chunks r)
         \<and> k' = k + length (expected_file_chunks r) \<and> secretKey w' = secretKey w"
  using assms
proof (induction "length r" arbitrary: r k w rule: less_induct)
  case less
  show ?case
  proof (cases "r = []")
    case True
    with less.prems show ?thesis by simp
  next
    case False
    note run = less.prems(2)[unfolded io_Copy_Write_step[OF False]]
    from run obtain nw k1 w1 where
      wr: "Write c rnd (k, w) (take copyBuf r) = Ret (nw, None, k1, w1)"
      by (cases "Write c rnd (k, w) (take copyBuf r)") (auto split: option.splits)
    from Write_success[OF less.prems(1) wr]
    have 1: "written (out w1) = written (out w)
               @ frames c (secretKey w) rnd k (expected_chunks (take copyBuf r))"
      and 2: "k1 = k + length (expected_chunks (take copyBuf r))"
      and 3: "buf w1 = []" and 4: "secretKey w1 = secretKey w"
      and 5: "nw = length (take copyBuf r)" by auto
    from run have rest: "io_Copy_Write c rnd (k1, w1) (drop copyBuf r) = Ret (None, k', w')"
      by (simp add: wr 5)
    have "length (drop copyBuf r) < length r" using False copyBuf_pos by simp
    from less.hyps[OF this 3 rest]
    show ?thesis
      unfolding expected_file_chunks_step[OF False] frames_append
      by (simp add: 1 2 4)
  qed
qed

lemma io_Copy_Write_runs:
  assumes "buf w = []" "length (secretKey w) = 32" "room (out w) = None"
    and "good_draws rnd (usedNonces w) k (length (expected_file_chunks r))"
  shows "\<exists>w'. io_Copy_Write c rnd (k, w) r
                 = Ret (None, k + length (expected_file_chunks r), w')
           \<and> room (out w') = None"
  using assms
proof (induction "length r" arbitrary: r k w rule: less_induct)
  case less
  show ?case
  proof (cases "r = []")
    case True
    with less.prems show ?thesis by simp
  next
    case False
    define m where "m = length (expected_chunks (take copyBuf r))"
    define n where "n = length (expected_file_chunks (drop copyBuf r))"
    have len: "length (expected_file_chunks r) = m + n"
      unfolding expected_file_chunks_step[OF False] m_def n_def by simp
    from less.prems(4) have gd: "good_draws rnd (usedNonces w) k (m + n)"
      unfolding len .
    then have "good_draws rnd (usedNonces w) k m" by (rule good_draws_mono) simp
    from Write_runs[OF less.prems(1,2,3) this[unfolded m_def], of c, folded m_def]
    obtain w1 where wr: "Write c rnd (k, w) (take copyBuf r)
                           = Ret (length (take copyBuf r), None, k + m, w1)"
      and r1: "room (out w1) = None"
      and u1: "usedNonces w1 = usedNonces w \<union> nonce_at rnd ` {k..<k + m}"
      by blast
    from Write_success[OF less.prems(1) wr]
    have b1: "buf w1 = []" and key1: "length (secretKey w1) = 32"
      using less.prems(2) by auto
    have gd1: "good_draws rnd (usedNonces w1) (k + m)
                 (length (expected_file_chunks (drop copyBuf r)))"
      unfolding u1 using good_draws_add[OF gd] by (simp add: n_def)
    have "length (drop copyBuf r) < length r" using False copyBuf_pos by simp
    from less.hyps[OF this b1 key1 r1 gd1, folded n_def]
    obtain w' where rest: "io_Copy_Write c rnd (k + m, w1) (drop copyBuf r)
                 = Ret (None, k + m + n, w')" and r': "room (out w') = None"
      by blast
    have "io_Copy_Write c rnd (k, w) r = Ret (None, k + (m + n), w')"
      unfolding io_Copy_Write_step[OF False] by (simp add: wr rest add.assoc)
    with r' show ?thesis unfolding len by blast
  qed
qed

text \<open>The test instance draws a different nonce at each of its first 256 reads.\<close>

lemma nonce_at_test [simp]: "nonce_at (rand test_env) j = replicate 24 (of_nat j)"
  by (simp add: nonce_at_def rand_ReadFull_def test_env_def)

lemma byte_of_nat_inj:
  assumes "(of_nat i :: byte) = of_nat j" "i < 256" "j < 256"
  shows "i = j"
proof -
  from assms(1) have "unat (of_nat i :: byte) = unat (of_nat j :: byte)" by simp
  then show ?thesis using assms(2,3) by (simp add: unat_of_nat)
qed

lemma test_good_draws: "k + n \<le> 256 \<Longrightarrow> good_draws (rand test_env) {} k n"
  unfolding good_draws_def
proof (intro allI impI conjI)
  fix j assume "k + n \<le> 256" "k \<le> j \<and> j < k + n"
  show "rand_ReadFull (rand test_env) j 24 \<noteq> None"
    by (simp add: rand_ReadFull_def test_env_def)
  show "nonce_at (rand test_env) j \<notin> {}" by simp
next
  fix j j' assume a: "k + n \<le> 256" "k \<le> j \<and> j < k + n" "k \<le> j' \<and> j' < j"
  show "nonce_at (rand test_env) j' \<noteq> nonce_at (rand test_env) j"
  proof
    assume "nonce_at (rand test_env) j' = nonce_at (rand test_env) j"
    then have "(of_nat j' :: byte) = of_nat j" by simp
    from byte_of_nat_inj[OF this] a show False by simp
  qed
qed

text \<open>
  Claim C5: a \<open>Write\<close> call that succeeds on a writer with an empty buffer appends the
  frames of the expected chunks of its plaintext, in order: their concatenation is the
  plaintext, each carries at most \<open>maxChunkSize\<close> bytes, and for a plaintext of
  \<open>maxChunkSize + 1 = 16385\<close> bytes they are exactly two, of 16384 bytes and of 1 byte.
\<close>

theorem Write_chunks:
  assumes "buf w = []" and "Write c rnd (k, w) p = Ret (n, None, k', w')"
  shows "written (out w') = written (out w) @ frames c (secretKey w) rnd k (expected_chunks p)
       \<and> k' = k + length (expected_chunks p)
       \<and> concat (expected_chunks p) = p
       \<and> (\<forall>ch \<in> set (expected_chunks p). length ch \<le> maxChunkSize)
       \<and> (length p = maxChunkSize + 1 \<longrightarrow>
            expected_chunks p = [take maxChunkSize p, drop maxChunkSize p]
            \<and> length (take maxChunkSize p) = 16384 \<and> length (drop maxChunkSize p) = 1)"
proof -
  have 3: "length p = maxChunkSize + 1 \<longrightarrow>
            expected_chunks p = [take maxChunkSize p, drop maxChunkSize p]
            \<and> length (take maxChunkSize p) = 16384 \<and> length (drop maxChunkSize p) = 1"
    using expected_chunks_one_more[of p] by (auto simp: maxChunkSize_def)
  from Write_success[OF assms] 3 expected_chunks_bounded show ?thesis by auto
qed

theorem Write_chunks_witness:
  "\<exists>w'. Write test_crypto (rand test_env) (0, NewWriter [] \<lparr>written = [], room = None\<rparr>)
            (replicate 16385 7) = Ret (16385, None, 2, w')
       \<and> written (out w')
           = frame test_crypto (replicate 32 0) (replicate 24 0) (replicate 16384 7)
             @ frame test_crypto (replicate 32 0) (replicate 24 1) (replicate 1 7)"
proof -
  let ?p = "replicate 16385 (7 :: byte)"
  let ?w = "NewWriter [] \<lparr>written = [], room = None\<rparr>"
  have l: "length ?p = maxChunkSize + 1" by (simp add: maxChunkSize_def)
  have ec: "expected_chunks ?p = [replicate 16384 7, replicate 1 7]"
    unfolding expected_chunks_one_more[OF l] by (simp add: maxChunkSize_def)
  have b: "buf ?w = []" by (simp add: NewWriter_def)
  have gd: "good_draws (rand test_env) (usedNonces ?w) 0 (length (expected_chunks ?p))"
    unfolding ec by (simp add: NewWriter_def test_good_draws)
  from Write_runs[OF b _ _ gd, of test_crypto]
  obtain w' where run: "Write test_crypto (rand test_env) (0, ?w) ?p = Ret (16385, None, 2, w')"
    unfolding ec by (auto simp: NewWriter_def)
  from Write_chunks[OF b run]
  have "written (out w') = written (out ?w)
          @ frames test_crypto (secretKey ?w) (rand test_env) 0 (expected_chunks ?p)" by blast
  then have "written (out w')
           = frame test_crypto (replicate 32 0) (replicate 24 0) (replicate 16384 7)
             @ frame test_crypto (replicate 32 0) (replicate 24 1) (replicate 1 7)"
    unfolding ec by (simp add: NewWriter_def array_of_def)
  with run show ?thesis by blast
qed

text \<open>
  Claim C6, as stated, fails: \<open>encryptFile\<close> on an empty input writes the 105-byte header
  and nothing else, since \<open>io.Copy\<close> never calls \<open>Write\<close>; no chunk frame is there.
\<close>

theorem empty_input_counterexample:
  "encryptFile test_crypto test_env Map.empty [1, 2] [] ''o''
     = Ret (None, Map.empty(''o.temp'' := None,
              ''o'' \<mapsto> replicate 32 0 @ le_bytes 4 4 @ le_bytes 4 4000000 @ [8]
                         @ array_of 64 [0]))
   \<and> length (replicate 32 (0 :: byte) @ le_bytes 4 4 @ le_bytes 4 4000000 @ [8]
               @ array_of 64 [0]) = 105"
  by (simp add: eval_defs)

text \<open>
  Claim C6, amended: \<open>encryptFile\<close> on an empty input produces a file that consists of the
  header alone, with an empty ciphertext region; a chunk frame with zero bytes of plaintext
  is produced only by a \<open>Write\<close> call with an empty slice, which writes exactly that one
  frame.
\<close>

theorem empty_input:
  "(encryptFile c env files passphrase [] finalOutput = Ret (None, files') \<longrightarrow>
      (\<exists>header. files' finalOutput = Some (binary_Write_header header)
         \<and> length (binary_Write_header header) = 105))
   \<and> (buf w = [] \<and> Write c rnd (k, w) [] = Ret (n, None, k', w') \<longrightarrow>
        written (out w') = written (out w) @ frame c (secretKey w) (nonce_at rnd k) [])"
proof (intro conjI impI)
  assume "encryptFile c env files passphrase [] finalOutput = Ret (None, files')"
  from encryptFile_success[OF this]
  show "\<exists>header. files' finalOutput = Some (binary_Write_header header)
         \<and> length (binary_Write_header header) = 105"
    by (auto simp: NewWriter_def)
next
  assume a: "buf w = [] \<and> Write c rnd (k, w) [] = Ret (n, None, k', w')"
  then have b: "buf w = []" and r: "Write c rnd (k, w) [] = Ret (n, None, k', w')" by auto
  from Write_success[OF b r]
  show "written (out w') = written (out w) @ frame c (secretKey w) (nonce_at rnd k) []"
    by (simp add: expected_chunks_small)
qed

theorem empty_input_witness:
  "encryptFile test_crypto test_env Map.empty [1, 2] [] ''o''
     = Ret (None, Map.empty(''o.temp'' := None,
              ''o'' \<mapsto> replicate 32 0 @ le_bytes 4 4 @ le_bytes 4 4000000 @ [8]
                         @ array_of 64 [0]))
   \<and> (\<exists>header. (Map.empty(''o.temp'' := None,
              ''o'' \<mapsto> replicate 32 0 @ le_bytes 4 4 @ le_bytes 4 4000000 @ [8]
                         @ array_of 64 [0])) ''o'' = Some (binary_Write_header header)
         \<and> length (binary_Write_header header) = 105)
   \<and> Write test_crypto (rand test_env) (0, NewWriter [] \<lparr>written = [], room = None\<rparr>) []
       = Ret (0, None, 1,
         \<lparr>out = \<lparr>written = replicate 24 0 @ le_bytes 8 (length (replicate 16 (1::byte)))
                    @ replicate 16 1, room = None\<rparr>,
          buf = [], usedNonces = {replicate 24 0}, secretKey = replicate 32 0\<rparr>)
   \<and> written (out \<lparr>out = \<lparr>written = replicate 24 0 @ le_bytes 8 (length (replicate 16 (1::byte)))
                    @ replicate 16 1, room = None\<rparr>,
          buf = [], usedNonces = {replicate 24 0}, secretKey = replicate 32 0\<rparr>)
       = written (out (NewWriter [] \<lparr>written = [], room = None\<rparr>))
          @ frame test_crypto (secretKey (NewWriter [] \<lparr>written = [], room = None\<rparr>))
              (nonce_at (rand test_env) 0) []"
proof -
  have e: "encryptFile test_crypto test_env Map.empty [1, 2] [] ''o''
     = Ret (None, Map.empty(''o.temp'' := None,
              ''o'' \<mapsto> replicate 32 0 @ le_bytes 4 4 @ le_bytes 4 4000000 @ [8]
                         @ array_of 64 [0]))"
    by (simp add: eval_defs)
  have w: "Write test_crypto (rand test_env) (0, NewWriter [] \<lparr>written = [], room = None\<rparr>) []
       = Ret (0, None, 1,
         \<lparr>out = \<lparr>written = replicate 24 0 @ le_bytes 8 (length (replicate 16 (1::byte)))
                    @ replicate 16 1, room = None\<rparr>,
          buf = [], usedNonces = {replicate 24 0}, secretKey = replicate 32 0\<rparr>)"
    by (simp add: eval_defs)
  have b: "buf (NewWriter [] \<lparr>written = [], room = None\<rparr>) = []" by (simp add: NewWriter_def)
  note t = empty_input[of test_crypto test_env Map.empty "[1, 2]" "''o''" _
      "NewWriter [] \<lparr>written = [], room = None\<rparr>" "rand test_env" 0 0 1]
  from t[THEN conjunct1, rule_format, OF e] t[THEN conjunct2, rule_format, OF conjI[OF b w]] e w
  show ?thesis by blast
qed



section \<open>Nonces of one encryption\<close>

lemma nonces_tracked_new: "nonces_tracked rnd k0 (k0, NewWriter sk s)"
  by (simp add: nonces_tracked_def NewWriter_def)

lemma writeChunk_tracked:
  assumes "nonces_tracked rnd k0 (k, w)" "writeChunk c rnd (k, w) = Ret (e, st')"
  shows "nonces_tracked rnd k0 st'"
proof -
  obtain k' w' where st': "st' = (k', w')" by (cases st')
  from writeChunk_Ret[OF assms(2)[unfolded st']]
  have k': "k' = Suc k" and fresh: "nonce_at rnd k \<notin> usedNonces w"
    and u: "usedNonces w' = insert (nonce_at rnd k) (usedNonces w)" by auto
  from assms(1) have le: "k0 \<le> k" and used: "usedNonces w = nonce_at rnd ` {k0..<k}"
    and inj: "inj_on (nonce_at rnd) {k0..<k}" by (auto simp: nonces_tracked_def)
  from le have s: "{k0..<Suc k} = insert k {k0..<k}" by auto
  have "inj_on (nonce_at rnd) {k0..<Suc k}"
    unfolding s using inj fresh used by simp
  moreover have "usedNonces w' = nonce_at rnd ` {k0..<Suc k}"
    unfolding s u used by simp
  ultimately show ?thesis using le by (simp add: nonces_tracked_def st' k')
qed

lemma Write_body_tracked:
  assumes "nonces_tracked rnd k0 (k, w)" "Write_body c rnd b (k, w) = Ret (e, st')"
  shows "nonces_tracked rnd k0 st'"
proof (cases "length (buf w) = maxChunkSize")
  case True
  note wb = assms(2)[unfolded Write_body_full[OF True]]
  then obtain e1 k1 w1 where wc: "writeChunk c rnd (k, w) = Ret (e1, k1, w1)"
    by (cases "writeChunk c rnd (k, w)") auto
  from writeChunk_tracked[OF assms(1) wc] have t: "nonces_tracked rnd k0 (k1, w1)" .
  show ?thesis
  proof (cases e1)
    case None
    with wb wc have "st' = (k1, w1\<lparr>buf := buf w1 @ [b]\<rparr>)" by simp
    with t show ?thesis by (simp add: nonces_tracked_def)
  next
    case (Some err)
    with wb wc have "st' = (k1, w1)" by simp
    with t show ?thesis by simp
  qed
next
  case False
  from assms(2)[unfolded Write_body_room[OF False]] assms(1)
  show ?thesis by (auto simp: nonces_tracked_def)
qed

lemma Write_loop_tracked:
  "nonces_tracked rnd k0 st \<Longrightarrow> Write_loop c rnd p i st = Ret (e, st') \<Longrightarrow>
     nonces_tracked rnd k0 st'"
proof (induction p arbitrary: i st)
  case Nil
  then show ?case by simp
next
  case (Cons b p)
  obtain k w where st: "st = (k, w)" by (cases st)
  from Cons.prems(2) obtain e1 st1 where body: "Write_body c rnd b st = Ret (e1, st1)"
    by (cases "Write_body c rnd b st") auto
  from Write_body_tracked[OF Cons.prems(1)[unfolded st] body[unfolded st]]
  have t: "nonces_tracked rnd k0 st1" .
  show ?case
  proof (cases e1)
    case None
    with Cons.prems(2) body have "Write_loop c rnd p (Suc i) st1 = Ret (e, st')" by simp
    from Cons.IH[OF t this] show ?thesis .
  next
    case (Some err)
    with Cons.prems(2) body have "st' = st1" by simp
    with t show ?thesis by simp
  qed
qed

lemma Write_tracked:
  assumes "nonces_tracked rnd k0 st" "Write c rnd st p = Ret (n, e, st')"
  shows "nonces_tracked rnd k0 st'"
proof -
  from assms(2) obtain e1 st1 where loop: "Write_loop c rnd p 0 st = Ret (e1, st1)"
    unfolding Write_def by (cases "Write_loop c rnd p 0 st") auto
  from Write_loop_tracked[OF assms(1) loop] have t: "nonces_tracked rnd k0 st1" .
  show ?thesis
  proof (cases e1)
    case None
    with assms(2) loop obtain e2 where wc: "writeChunk c rnd st1 = Ret (e2, st')"
      unfolding Write_def by (cases "writeChunk c rnd st1") auto
    obtain k1 w1 where st1: "st1 = (k1, w1)" by (cases st1)
    from writeChunk_tracked[OF t[unfolded st1] wc[unfolded st1]] show ?thesis .
  next
    case (Some ie)
    with assms(2) loop have "st' = st1" unfolding Write_def by (cases ie) auto
    with t show ?thesis by simp
  qed
qed

lemma io_Copy_Write_tracked:
  "nonces_tracked rnd k0 st \<Longrightarrow> io_Copy_Write c rnd st r = Ret (e, st') \<Longrightarrow>
     nonces_tracked rnd k0 st'"
proof (induction "length r" arbitrary: r st rule: less_induct)
  case less
  show ?case
  proof (cases "r = []")
    case True
    with less.prems show ?thesis by simp
  next
    case False
    note run = less.prems(2)[unfolded io_Copy_Write_step[OF False]]
    from run obtain nw e1 st1 where wr: "Write c rnd st (take copyBuf r) = Ret (nw, e1, st1)"
      by (cases "Write c rnd st (take copyBuf r)") auto
    from Write_tracked[OF less.prems(1) wr] have t: "nonces_tracked rnd k0 st1" .
    show ?thesis
    proof (cases "e1 = None \<and> length (take copyBuf r) = nw")
      case True
      with run wr have rest: "io_Copy_Write c rnd st1 (drop copyBuf r) = Ret (e, st')"
        by simp
      have "length (drop copyBuf r) < length r" using False copyBuf_pos by simp
      from less.hyps[OF this t rest] show ?thesis .
    next
      case F: False
      with run wr have "st' = st1" by (cases e1) (auto split: if_splits)
      with t show ?thesis by simp
    qed
  qed
qed

lemma writeChunk_collision:
  "rand_ReadFull rnd k 24 = Some nonce \<Longrightarrow> nonce \<in> usedNonces w \<Longrightarrow>
     writeChunk c rnd (k, w) = Panic ''nonce reuse''"
  by (simp add: writeChunk_def)

text \<open>
  Claim C4: in one encryption (one \<open>io.Copy\<close> into a new writer) the nonces drawn are
  pairwise different and are exactly the used-nonce set; when the copy succeeds the output
  is the sequence of frames that carry these nonces, one per chunk. A drawn nonce that is
  already in the set makes \<open>writeChunk\<close> panic before anything is written.
\<close>

theorem nonces_unique:
  assumes "io_Copy_Write c rnd (k0, NewWriter sk s) input = Ret (e, k', w')"
  shows "k0 \<le> k' \<and> distinct (map (nonce_at rnd) [k0..<k'])
       \<and> usedNonces w' = set (map (nonce_at rnd) [k0..<k'])
       \<and> (e = None \<longrightarrow>
            written (out w') = written s
               @ frames c (array_of 32 sk) rnd k0 (expected_file_chunks input)
            \<and> k' = k0 + length (expected_file_chunks input))
       \<and> (rand_ReadFull rnd k 24 = Some nonce \<and> nonce \<in> usedNonces w \<longrightarrow>
            writeChunk c rnd (k, w) = Panic ''nonce reuse'')"
proof -
  from io_Copy_Write_tracked[OF nonces_tracked_new assms]
  have t: "nonces_tracked rnd k0 (k', w')" .
  then have 1: "k0 \<le> k'" and 2: "distinct (map (nonce_at rnd) [k0..<k'])"
    and 3: "usedNonces w' = set (map (nonce_at rnd) [k0..<k'])"
    by (auto simp: nonces_tracked_def distinct_map)
  have 4: "written (out w') = written s
               @ frames c (array_of 32 sk) rnd k0 (expected_file_chunks input)
            \<and> k' = k0 + length (expected_file_chunks input)" if "e = None"
  proof -
    have b: "buf (NewWriter sk s) = []" by (simp add: NewWriter_def)
    from io_Copy_Write_success[OF b assms[unfolded that]] show ?thesis
      by (simp add: NewWriter_def)
  qed
  from 1 2 3 4 writeChunk_collision show ?thesis by blast
qed

theorem nonces_unique_witness:
  "\<exists>w'. io_Copy_Write test_crypto (rand test_env)
            (0, NewWriter [] \<lparr>written = [], room = None\<rparr>) (replicate 16385 7)
          = Ret (None, 2, w')
       \<and> distinct (map (nonce_at (rand test_env)) [0..<2])
       \<and> usedNonces w' = set (map (nonce_at (rand test_env)) [0..<2])
       \<and> written (out w')
           = frames test_crypto (array_of 32 []) (rand test_env) 0
               [replicate 16384 7, replicate 1 7]
       \<and> writeChunk test_crypto (rand test_env)
            (1, \<lparr>out = \<lparr>written = [], room = None\<rparr>, buf = [],
                 usedNonces = {replicate 24 1}, secretKey = replicate 32 0\<rparr>)
           = Panic ''nonce reuse''"
proof -
  let ?p = "replicate 16385 (7 :: byte)"
  let ?w = "NewWriter [] \<lparr>written = [], room = None\<rparr>"
  let ?x = "\<lparr>out = \<lparr>written = [], room = None\<rparr>, buf = [],
            usedNonces = {replicate 24 (1 :: byte)}, secretKey = replicate 32 0\<rparr>"
  have l: "length ?p = maxChunkSize + 1" by (simp add: maxChunkSize_def)
  have ec: "expected_chunks ?p = [replicate 16384 7, replicate 1 7]"
    unfolding expected_chunks_one_more[OF l] by (simp add: maxChunkSize_def)
  have ne: "?p \<noteq> []" by simp
  have efc: "expected_file_chunks ?p = [replicate 16384 7, replicate 1 7]"
    unfolding expected_file_chunks_step[OF ne] by (simp add: copyBuf_def ec)
  have b: "buf ?w = []" by (simp add: NewWriter_def)
  have gd: "good_draws (rand test_env) (usedNonces ?w) 0 (length (expected_file_chunks ?p))"
    unfolding efc by (simp add: NewWriter_def test_good_draws)
  from io_Copy_Write_runs[OF b _ _ gd, of test_crypto]
  obtain w' where run: "io_Copy_Write test_crypto (rand test_env) (0, ?w) ?p = Ret (None, 2, w')"
    unfolding efc by (auto simp: NewWriter_def)
  have r: "rand_ReadFull (rand test_env) 1 24 = Some (replicate 24 1)"
    by (simp add: rand_ReadFull_def test_env_def)
  have m: "replicate 24 1 \<in> usedNonces ?x" by simp
  note t = nonces_unique[OF run, of 1 "replicate 24 1" ?x]
  from t have "distinct (map (nonce_at (rand test_env)) [0..<2])"
    and "usedNonces w' = set (map (nonce_at (rand test_env)) [0..<2])"
    and "written (out w') = written \<lparr>written = [], room = None\<rparr>
               @ frames test_crypto (array_of 32 []) (rand test_env) 0 (expected_file_chunks ?p)"
    and "writeChunk test_crypto (rand test_env) (1, ?x) = Panic ''nonce reuse''"
    using r m by blast+
  with run show ?thesis unfolding efc by simp
qed

section \<open>Buffer sizes\<close>

lemma enc_reach_buf:
  "enc_reach c rnd st \<Longrightarrow> length (buf (snd st)) \<le> maxChunkSize"
proof (induction rule: enc_reach.induct)
  case (enc_new k sk s)
  show ?case by (simp add: NewWriter_def)
next
  case (enc_body st b e st')
  obtain k w where st: "st = (k, w)" by (cases st)
  obtain k' w' where st': "st' = (k', w')" by (cases st')
  from enc_body.IH have le: "length (buf w) \<le> maxChunkSize" by (simp add: st)
  show ?case
  proof (cases "length (buf w) = maxChunkSize")
    case True
    note wb = enc_body.hyps(2)[unfolded st Write_body_full[OF True]]
    then obtain e1 k1 w1 where wc: "writeChunk c rnd (k, w) = Ret (e1, k1, w1)"
      by (cases "writeChunk c rnd (k, w)") auto
    from writeChunk_Ret[OF wc] le have l1: "length (buf w1) \<le> maxChunkSize" by auto
    show ?thesis
    proof (cases e1)
      case None
      from writeChunk_success[OF wc[unfolded None]] have "buf w1 = []" by simp
      moreover from wb wc None have "w' = w1\<lparr>buf := buf w1 @ [b]\<rparr>" by (simp add: st')
      ultimately show ?thesis using maxChunkSize_pos by (simp add: st')
    next
      case (Some err)
      with wb wc have "w' = w1" by (simp add: st')
      with l1 show ?thesis by (simp add: st')
    qed
  next
    case False
    from enc_body.hyps(2)[unfolded st Write_body_room[OF False]]
    have "w' = w\<lparr>buf := buf w @ [b]\<rparr>" by (simp add: st')
    with False le show ?thesis by (simp add: st')
  qed
next
  case (enc_chunk st e st')
  obtain k w where st: "st = (k, w)" by (cases st)
  obtain k' w' where st': "st' = (k', w')" by (cases st')
  from writeChunk_Ret[OF enc_chunk.hyps(2)[unfolded st st']] enc_chunk.IH
  show ?case by (auto simp: st st')
qed

lemma nextChunk_buf:
  assumes "nextChunk c b = (e, b')"
  shows "buf_r b' = buf_r b
         \<or> (\<exists>key nonce ct. Open c key nonce ct = Some (buf_r b')
               \<and> length ct \<le> maxChunkSize + 16)"
proof (cases e)
  case (Some err)
  with assms show ?thesis
    unfolding nextChunk_def io_ReadFull_def
    by (auto simp: Let_def split: prod.splits sum.splits if_splits option.splits)
next
  case None
  with assms have "\<exists>ct. Open c (secretKey_r b) (take 24 (in_r b)) ct = Some (buf_r b')
               \<and> length ct \<le> maxChunkSize + 16"
    unfolding nextChunk_def io_ReadFull_def
    by (auto simp: Let_def split: prod.splits sum.splits if_splits option.splits)
  then show ?thesis by blast
qed

lemma Read_body_buf:
  assumes "Read_body c b = Ret (x, b')"
  shows "buf_r b' = buf_r b
         \<or> (\<exists>key nonce ct. Open c key nonce ct = Some (buf_r b')
               \<and> length ct \<le> maxChunkSize + 16)"
proof -
  obtain e b1 where nc: "(if index b = 0 then nextChunk c b else (None, b)) = (e, b1)"
    by (cases "if index b = 0 then nextChunk c b else (None, b)") auto
  from assms nc have eq: "buf_r b' = buf_r b1"
    unfolding Read_body_def by (auto simp: Let_def split: option.splits if_splits)
  show ?thesis
  proof (cases "index b = 0")
    case True
    with nc have "nextChunk c b = (e, b1)" by simp
    from nextChunk_buf[OF this] show ?thesis unfolding eq .
  next
    case False
    with nc have "b1 = b" by simp
    with eq show ?thesis by simp
  qed
qed

lemma dec_reach_buf:
  assumes aead: "\<forall>key nonce ct p. Open c key nonce ct = Some p \<longrightarrow> length p + 16 = length ct"
  shows "dec_reach c b \<Longrightarrow> length (buf_r b) \<le> maxChunkSize"
proof (induction rule: dec_reach.induct)
  case (dec_new sk r)
  show ?case by (simp add: NewReader_def)
next
  case (dec_next b e b')
  from nextChunk_buf[OF dec_next.hyps(2)] dec_next.IH aead show ?case by fastforce
next
  case (dec_body b x b')
  from Read_body_buf[OF dec_body.hyps(2)] dec_body.IH aead show ?case by fastforce
qed

text \<open>
  Claim C9: in every state that an encryptor reaches the buffered plaintext is at most
  \<open>maxChunkSize\<close> bytes long, hence at most \<open>3 \<times> maxChunkSize\<close>; the same holds for the
  chunk buffer of a decryptor, given that opening a sealed chunk yields sixteen bytes less
  than the sealed chunk has.
\<close>

theorem buffers_bounded:
  "(enc_reach c rnd (k, w) \<longrightarrow>
      length (buf w) \<le> maxChunkSize \<and> length (buf w) \<le> 3 * maxChunkSize)
   \<and> ((\<forall>key nonce ct p. Open c key nonce ct = Some p \<longrightarrow> length p + 16 = length ct)
        \<and> dec_reach c b \<longrightarrow>
      length (buf_r b) \<le> maxChunkSize \<and> length (buf_r b) \<le> 3 * maxChunkSize)"
proof (intro conjI impI)
  assume "enc_reach c rnd (k, w)"
  from enc_reach_buf[OF this] show "length (buf w) \<le> maxChunkSize"
    and "length (buf w) \<le> 3 * maxChunkSize" by simp_all
next
  assume a: "(\<forall>key nonce ct p. Open c key nonce ct = Some p \<longrightarrow> length p + 16 = length ct)
        \<and> dec_reach c b"
  then have "length (buf_r b) \<le> maxChunkSize" using dec_reach_buf by blast
  then show "length (buf_r b) \<le> maxChunkSize" and "length (buf_r b) \<le> 3 * maxChunkSize"
    by simp_all
qed

lemma test_Open_length:
  "\<forall>key nonce ct p. Open test_crypto key nonce ct = Some p \<longrightarrow> length p + 16 = length ct"
  by (auto simp: test_crypto_def split: if_splits)

theorem buffers_bounded_witness:
  "enc_reach test_crypto (rand test_env)
      (0, \<lparr>out = \<lparr>written = [], room = None\<rparr>, buf = [7], usedNonces = {},
           secretKey = replicate 32 0\<rparr>)
   \<and> length (buf \<lparr>out = \<lparr>written = [], room = None\<rparr>, buf = [7], usedNonces = {},
           secretKey = replicate 32 0\<rparr>) \<le> 3 * maxChunkSize
   \<and> dec_reach test_crypto
        \<lparr>in_r = [], buf_r = [7], index = 0, secretKey_r = replicate 32 0\<rparr>
   \<and> length (buf_r \<lparr>in_r = [], buf_r = [7], index = 0, secretKey_r = replicate 32 0\<rparr>)
        \<le> 3 * maxChunkSize"
proof -
  let ?w = "\<lparr>out = \<lparr>written = [], room = None\<rparr>, buf = [7 :: byte], usedNonces = {},
           secretKey = replicate 32 (0 :: byte)\<rparr>"
  let ?b = "\<lparr>in_r = [], buf_r = [7 :: byte], index = 0, secretKey_r = replicate 32 (0 :: byte)\<rparr>"
  have "Write_body test_crypto (rand test_env) 7
          (0, NewWriter [] \<lparr>written = [], room = None\<rparr>) = Ret (None, 0, ?w)"
    by (simp add: Write_body_def NewWriter_def maxChunkSize_def array_of_def)
  from enc_body[OF enc_new this] have e: "enc_reach test_crypto (rand test_env) (0, ?w)" .
  have "nextChunk test_crypto
          (NewReader [] (replicate 24 0 @ le_bytes 8 17 @ [7] @ replicate 16 1))
        = (None, ?b)"
    by (simp add: dec_eval_defs le_nat_le_bytes)
  from dec_next[OF dec_new this] have d: "dec_reach test_crypto ?b" .
  from buffers_bounded[of test_crypto "rand test_env" 0 ?w ?b] e d test_Open_length
  show ?thesis by blast
qed



section \<open>Authentication before decryption\<close>

lemma array_of_exact: "length xs = n \<Longrightarrow> array_of n xs = xs"
  by (simp add: array_of_def)

lemma word32_le_roundtrip: "of_nat (le_nat (le_bytes 4 (unat (w :: 32 word)))) = w"
proof -
  have "unat w < 2 ^ 32" using unsigned_less[of w] by simp
  then have "le_nat (le_bytes 4 (unat w)) = unat w"
    by (simp add: le_nat_le_bytes)
  then show ?thesis by simp
qed

text \<open>Reading back a header that \<open>binary.Write\<close> has written.\<close>

lemma binary_Read_Write_header:
  "binary_Read_header (binary_Write_header h @ rest)
     = (Inr (h\<lparr>Salt := array_of 32 (Salt h), Tag := array_of 64 (Tag h)\<rparr>), rest)"
proof -
  let ?d = "binary_Write_header h"
  have rf: "io_ReadFull (?d @ rest) headerSize = (Inr ?d, rest)"
    by (rule io_ReadFull_append) (simp add: headerSize_def)
  have 1: "take 32 ?d = array_of 32 (Salt h)"
    and 2: "take 4 (drop 32 ?d) = le_bytes 4 (unat (ArgonTime h))"
    and 3: "take 4 (drop 36 ?d) = le_bytes 4 (unat (ArgonMemory h))"
    and 4: "?d ! 40 = ArgonLanes h"
    and 5: "take 64 (drop 41 ?d) = array_of 64 (Tag h)"
    by (simp_all add: binary_Write_header_def nth_append)
  show ?thesis
    unfolding binary_Read_header_def rf prod.case sum.case 1 2 3 4 5 word32_le_roundtrip
    by simp
qed

lemma generateKey_IDKey:
  assumes "generateKey c rnd n k pw = Ret (Inr (skb, header), k')"
  shows "IDKey c pw (Salt header) (ArgonTime header) (ArgonMemory header) (ArgonLanes header)
           (keyLen + macLen) = Ret skb \<and> Tag header = replicate 64 0"
  using assms
  by (auto simp: generateKey_def Let_def split: option.splits go.splits)

text \<open>
  \<open>decryptFile\<close> on a file that starts with a header written by \<open>encryptFile\<close>, up to
  the comparison of the MAC.
\<close>

lemma decryptFile_authenticates:
  assumes gk: "generateKey c rnd n k pw = Ret (Inr (skb, header), k')"
    and os: "\<not> fails env CreateTemp" "\<not> fails env SeekInput" "\<not> fails env TellInput"
  shows "decryptFile c env files pw (binary_Write_header (header\<lparr>Tag := tag\<rparr>) @ region) fin
     = (let removed = files(fin @ ''.temp'' := None);
            sk = array_of 32 (take 32 skb); macKey = array_of 32 (drop 32 skb) in
        if array_of 64 (blake2b_512 c macKey region) \<noteq> array_of 64 tag
        then Ret (Some errBadMAC, removed)
        else if fails env SeekCiphertext then Ret (Some (ErrOS SeekCiphertext), removed)
        else
          (case io_Copy_Read c (NewReader sk region) \<lparr>written = [], room = disk env\<rparr> of
             Panic m \<Rightarrow> Panic m
           | Ret (Some e, b, outp) \<Rightarrow> Ret (Some e, removed)
           | Ret (None, b, outp) \<Rightarrow>
               if fails env Sync then Ret (Some (ErrOS Sync), removed)
               else if fails env Close then Ret (Some (ErrOS Close), removed)
               else if fails env Rename then Ret (Some (ErrOS Rename), removed)
               else Ret (None, removed(fin \<mapsto> written outp))))"
proof -
  from generateKey_header[OF gk] have salt: "length (Salt header) = 32" by simp
  from generateKey_IDKey[OF gk]
  have idk: "IDKey c pw (Salt header) (ArgonTime header) (ArgonMemory header)
               (ArgonLanes header) (keyLen + macLen) = Ret skb" by simp
  have rd: "binary_Read_header (binary_Write_header (header\<lparr>Tag := tag\<rparr>) @ region)
              = (Inr (header\<lparr>Tag := array_of 64 tag\<rparr>), region)"
    unfolding binary_Read_Write_header by (simp add: array_of_exact[OF salt])
  have off: "length (binary_Write_header (header\<lparr>Tag := tag\<rparr>) @ region) - length region = 105"
    by simp
  show ?thesis
    unfolding decryptFile_def rd prod.case sum.case Let_def off
    using os by (simp add: idk)
qed

lemma generateKey_salt:
  assumes "generateKey c rnd n k pw = Ret (Inr (skb, header), k')"
  shows "rand_ReadFull rnd k 32 = Some (Salt header)"
  using assms
  by (auto simp: generateKey_def Let_def split: option.splits go.splits)

lemma header_kdf:
  assumes gk: "generateKey c rnd n k pw = Ret (Inr (skb, header), k')"
  shows "IDKey c pw (take 32 (binary_Write_header (header\<lparr>Tag := t\<rparr>))) 4 4000000
           (binary_Write_header (header\<lparr>Tag := t\<rparr>) ! 40) (keyLen + macLen) = Ret skb"
proof -
  note h = generateKey_header[OF gk]
  have 1: "take 32 (binary_Write_header (header\<lparr>Tag := t\<rparr>)) = Salt header"
    using h by (simp add: binary_Write_header_def array_of_exact)
  have 2: "binary_Write_header (header\<lparr>Tag := t\<rparr>) ! 40 = ArgonLanes header"
    by (simp add: binary_Write_header_def nth_append)
  from generateKey_IDKey[OF gk] h show ?thesis unfolding 1 2 by simp
qed

lemma tampered_differs:
  assumes "(\<exists>n < length C. C' = take n C)
           \<or> (\<exists>i < length C. \<exists>x. x \<noteq> C ! i \<and> C' = C[i := x])"
  shows "C' \<noteq> C"
  using assms
proof (elim disjE exE conjE)
  fix n assume "n < length C" "C' = take n C"
  then have "length C' < length C" by simp
  then show ?thesis by auto
next
  fix i x assume i: "i < length C" and x: "x \<noteq> C ! i" and c: "C' = C[i := x]"
  from i c have "C' ! i = x" by simp
  with x show ?thesis by auto
qed

text \<open>
  Claim C2: take a file that \<open>encryptFile\<close> has produced, with header \<open>H\<close> and a
  non-empty ciphertext region \<open>C\<close>, and replace the region by a truncation of it or by a
  copy with one byte changed. The tag in the header covers the whole region, so
  \<open>decryptFile\<close> compares it with the MAC of the changed region before it decrypts
  anything: it returns \<open>errBadMAC\<close>, removes its temporary file and leaves the output path
  as it was. The one assumption on the external primitive is that keyed BLAKE2b, under the
  MAC key that \<open>decryptFile\<close> derives from the passphrase and the header, gives the changed
  region a tag other than that of the original region.
\<close>

theorem tampering_detected:
  assumes enc: "encryptFile c env files pw P fin = Ret (None, files')"
    and outfile: "files' fin = Some (H @ C)" and H: "length H = 105" and C: "C \<noteq> []"
    and tamper: "(\<exists>n < length C. C' = take n C)
                 \<or> (\<exists>i < length C. \<exists>x. x \<noteq> C ! i \<and> C' = C[i := x])"
    and kdf: "IDKey c pw (take 32 H) 4 4000000 (H ! 40) (keyLen + macLen) = Ret skb"
    and mac: "array_of 64 (blake2b_512 c (array_of 32 (drop 32 skb)) C')
                \<noteq> array_of 64 (blake2b_512 c (array_of 32 (drop 32 skb)) C)"
    and os: "\<not> fails env' CreateTemp" "\<not> fails env' SeekInput" "\<not> fails env' TellInput"
  shows "C' \<noteq> C
       \<and> decryptFile c env' files2 pw (H @ C') fin2
           = Ret (Some errBadMAC, files2(fin2 @ ''.temp'' := None))
       \<and> (files2(fin2 @ ''.temp'' := None)) fin2 = files2 fin2"
proof -
  from encryptFile_success[OF enc] obtain skb' header and k :: nat and w :: EncWriter where
    gk: "generateKey c (rand env) (NumCPU env) 0 pw = Ret (Inr (skb', header), Suc 0)"
    and f: "files' = (files(fin @ ''.temp'' := None))(fin \<mapsto>
              binary_Write_header
                (header\<lparr>Tag := array_of 64
                    (blake2b_512 c (array_of 32 (drop 32 skb')) (written (out w)))\<rparr>)
              @ written (out w))"
    by blast
  let ?tag = "array_of 64 (blake2b_512 c (array_of 32 (drop 32 skb')) (written (out w)))"
  from outfile f have "H @ C = binary_Write_header (header\<lparr>Tag := ?tag\<rparr>) @ written (out w)"
    by simp
  with H have HC: "H = binary_Write_header (header\<lparr>Tag := ?tag\<rparr>)" "C = written (out w)"
    by (simp_all add: append_eq_append_conv)
  from kdf header_kdf[OF gk, of ?tag] have skb: "skb' = skb" unfolding HC(1) by simp
  from tamper have ne: "C' \<noteq> C" by (rule tampered_differs)
  have "array_of 64 (blake2b_512 c (array_of 32 (drop 32 skb')) C') \<noteq> array_of 64 ?tag"
    using mac HC(2) skb by (simp add: array_of_exact)
  then have "decryptFile c env' files2 pw (H @ C') fin2
           = Ret (Some errBadMAC, files2(fin2 @ ''.temp'' := None))"
    unfolding HC(1) decryptFile_authenticates[OF gk os] by (simp add: Let_def)
  with ne show ?thesis by simp
qed

lemma expected_file_chunks_short:
  "r \<noteq> [] \<Longrightarrow> length r \<le> maxChunkSize \<Longrightarrow> expected_file_chunks r = [r]"
  unfolding expected_file_chunks_step
  by (simp add: expected_chunks_small copyBuf_def maxChunkSize_def)

theorem tampering_detected_witness:
  "\<exists>files' H C skb.
      encryptFile test_crypto test_env Map.empty [1, 2] [5, 6, 7] ''o'' = Ret (None, files')
    \<and> files' ''o'' = Some (H @ C) \<and> length H = 105 \<and> C \<noteq> []
    \<and> IDKey test_crypto [1, 2] (take 32 H) 4 4000000 (H ! 40) (keyLen + macLen) = Ret skb
    \<and> array_of 64 (blake2b_512 test_crypto (array_of 32 (drop 32 skb)) (take 10 C))
         \<noteq> array_of 64 (blake2b_512 test_crypto (array_of 32 (drop 32 skb)) C)
    \<and> take 10 C \<noteq> C
    \<and> decryptFile test_crypto test_env Map.empty [1, 2] (H @ take 10 C) ''p''
          = Ret (Some errBadMAC, Map.empty(''p.temp'' := None))"
proof -
  obtain files' where
    e: "encryptFile test_crypto test_env Map.empty [1, 2] [5, 6, 7] ''o'' = Ret (None, files')"
    by (simp add: eval_defs)
  from encryptFile_success[OF e] obtain skb header and k :: nat and w :: EncWriter where
    gk: "generateKey test_crypto (rand test_env) (NumCPU test_env) 0 [1, 2]
           = Ret (Inr (skb, header), Suc 0)"
    and cp: "io_Copy_Write test_crypto (rand test_env)
             (Suc 0, NewWriter (array_of 32 (take 32 skb))
                \<lparr>written = [], room = map_option (\<lambda>r. r - 105) (disk test_env)\<rparr>) [5, 6, 7]
               = Ret (None, k, w)"
    and f: "files' = (Map.empty(''o'' @ ''.temp'' := None))(''o'' \<mapsto>
              binary_Write_header
                (header\<lparr>Tag := array_of 64
                    (blake2b_512 test_crypto (array_of 32 (drop 32 skb)) (written (out w)))\<rparr>)
              @ written (out w))"
    by blast
  let ?H = "binary_Write_header
                (header\<lparr>Tag := array_of 64
                    (blake2b_512 test_crypto (array_of 32 (drop 32 skb)) (written (out w)))\<rparr>)"
  let ?C = "written (out w)"
  have b: "buf (NewWriter (array_of 32 (take 32 skb))
                \<lparr>written = [], room = map_option (\<lambda>r. r - 105) (disk test_env)\<rparr>) = []"
    by (simp add: NewWriter_def)
  from io_Copy_Write_success[OF b cp]
  have len: "length ?C = 51"
    by (simp add: NewWriter_def expected_file_chunks_short maxChunkSize_def frame_def
        test_crypto_def)
  then have C: "?C \<noteq> []" by auto
  have outfile: "files' ''o'' = Some (?H @ ?C)" by (simp add: f)
  have tamper: "(\<exists>n < length ?C. take 10 ?C = take n ?C)
                 \<or> (\<exists>i < length ?C. \<exists>x. x \<noteq> ?C ! i \<and> take 10 ?C = ?C[i := x])"
    using len by (intro disjI1 exI[of _ 10]) simp
  have kdf: "IDKey test_crypto [1, 2] (take 32 ?H) 4 4000000 (?H ! 40) (keyLen + macLen)
               = Ret skb"
    by (rule header_kdf[OF gk])
  have mac: "array_of 64 (blake2b_512 test_crypto (array_of 32 (drop 32 skb)) (take 10 ?C))
                 \<noteq> array_of 64 (blake2b_512 test_crypto (array_of 32 (drop 32 skb)) ?C)"
    using len by (simp add: test_crypto_def array_of_def)
  have os: "\<not> fails test_env CreateTemp" "\<not> fails test_env SeekInput"
    "\<not> fails test_env TellInput"
    by (simp_all add: test_env_def)
  from tampering_detected[OF e outfile _ C tamper kdf mac os, of Map.empty "''p''"]
    e outfile C kdf mac
  show ?thesis
    by (intro exI[of _ files'] exI[of _ ?H] exI[of _ ?C] exI[of _ skb]) simp
qed

section \<open>Decrypting what was encrypted\<close>

lemma Read_body_serve:
  assumes "index b \<noteq> 0" "index b < length (buf_r b)"
  shows "Read_body c b
           = Ret (Inr (buf_r b ! index b),
                  b\<lparr>index := (if length (buf_r b) \<le> index b + 1 then 0 else index b + 1)\<rparr>)"
  using assms by (simp add: Read_body_def Let_def)

lemma Read_body_eof:
  assumes "index b = 0" "in_r b = []"
  shows "Read_body c b = Ret (Inl EOF, b)"
  using assms by (simp add: Read_body_def nextChunk_exhausted)

lemma Read_body_fetch:
  assumes "index b = 0" "length (secretKey_r b) = 32" "length nonce = 24"
    and "ch \<noteq> []" "length ch \<le> maxChunkSize"
    and "Open c (secretKey_r b) nonce (Seal c (secretKey_r b) nonce ch) = Some ch"
    and "length (Seal c (secretKey_r b) nonce ch) = length ch + 16"
    and "in_r b = frame c (secretKey_r b) nonce ch @ rest"
  shows "Read_body c b
           = Ret (Inr (hd ch),
                  b\<lparr>in_r := rest, buf_r := ch, index := (if length ch \<le> 1 then 0 else 1)\<rparr>)"
proof -
  let ?ct = "Seal c (secretKey_r b) nonce ch"
  have l: "length ?ct \<le> maxChunkSize + 16" using assms(5,7) by simp
  have i: "in_r b = nonce @ le_bytes 8 (length ?ct) @ ?ct @ rest"
    using assms(8) by (simp add: frame_def)
  have nc: "nextChunk c b = (None, b\<lparr>in_r := rest, buf_r := ch\<rparr>)"
    unfolding nextChunk_frame[OF assms(3) l assms(2) i] assms(6) by simp
  have h: "ch ! 0 = hd ch" using assms(4) by (simp add: hd_conv_nth)
  show ?thesis
    using assms(1,4) by (simp add: Read_body_def nc Let_def h)
qed

lemma pending_serve:
  assumes "index b \<noteq> 0" "index b < length (buf_r b)"
  shows "pending b = buf_r b ! index b
           # pending (b\<lparr>index := (if length (buf_r b) \<le> index b + 1 then 0 else index b + 1)\<rparr>)"
proof -
  have "drop (index b) (buf_r b) = buf_r b ! index b # drop (Suc (index b)) (buf_r b)"
    using assms(2) by (simp add: Cons_nth_drop_Suc)
  then show ?thesis using assms by (auto simp: pending_def)
qed

lemma pending_fetch:
  assumes "ch \<noteq> []"
  shows "ch = hd ch # pending (b\<lparr>in_r := rest, buf_r := ch,
                                 index := (if length ch \<le> 1 then 0 else 1)\<rparr>)"
proof (cases "length ch \<le> 1")
  case True
  with assms have "ch = [hd ch]" by (cases ch) auto
  with True show ?thesis by (simp add: pending_def)
next
  case False
  with assms have "ch = hd ch # drop 1 ch" by (cases ch) auto
  with False show ?thesis by (simp add: pending_def)
qed

lemma Read_frames:
  assumes aead: "\<forall>nonce p. Open c key nonce (Seal c key nonce p) = Some p"
    and overhead: "\<forall>nonce p. length (Seal c key nonce p) = length p + 16"
    and key: "length key = 32"
  shows "reads_frames c key b items \<Longrightarrow>
     \<exists>b' items'.
        Read c b n = Ret (take n (pending b @ concat (map snd items)),
                          (if n \<le> length (pending b @ concat (map snd items))
                           then None else Some EOF), b')
      \<and> reads_frames c key b' items'
      \<and> pending b' @ concat (map snd items') = drop n (pending b @ concat (map snd items))"
proof (induction n arbitrary: b items)
  case 0
  then show ?case by auto
next
  case (Suc n)
  from Suc.prems have k: "secretKey_r b = key"
    and ix: "index b = 0 \<or> index b < length (buf_r b)"
    and src: "in_r b = concat (map (\<lambda>(nonce, ch). frame c key nonce ch) items)"
    and wf: "\<forall>(nonce, ch) \<in> set items. length nonce = 24 \<and> ch \<noteq> [] \<and> length ch \<le> maxChunkSize"
    by (auto simp: reads_frames_def)
  show ?case
  proof (cases "index b = 0")
    case False
    with ix have lt: "index b < length (buf_r b)" by simp
    define b3 where
      "b3 = b\<lparr>index := (if length (buf_r b) \<le> index b + 1 then 0 else index b + 1)\<rparr>"
    have body: "Read_body c b = Ret (Inr (buf_r b ! index b), b3)"
      unfolding b3_def by (rule Read_body_serve[OF False lt])
    have p: "pending b = buf_r b ! index b # pending b3"
      unfolding b3_def by (rule pending_serve[OF False lt])
    have rf3: "reads_frames c key b3 items"
      using k src wf lt by (auto simp: reads_frames_def b3_def)
    from Suc.IH[OF rf3] obtain b' items' where
      r: "Read c b3 n = Ret (take n (pending b3 @ concat (map snd items)),
                          (if n \<le> length (pending b3 @ concat (map snd items))
                           then None else Some EOF), b')"
      and rf': "reads_frames c key b' items'"
      and d: "pending b' @ concat (map snd items') = drop n (pending b3 @ concat (map snd items))"
      by blast
    have "Read c b (Suc n) = Ret (take (Suc n) (pending b @ concat (map snd items)),
                          (if Suc n \<le> length (pending b @ concat (map snd items))
                           then None else Some EOF), b')"
      by (simp add: body r p)
    moreover have "pending b' @ concat (map snd items')
                     = drop (Suc n) (pending b @ concat (map snd items))"
      by (simp add: d p)
    ultimately show ?thesis using rf' by blast
  next
    case True
    then have p0: "pending b = []" by (simp add: pending_def)
    show ?thesis
    proof (cases items)
      case Nil
      with src have "in_r b = []" by simp
      from Read_body_eof[OF True this] have "Read c b (Suc n) = Ret ([], Some EOF, b)"
        by simp
      with Nil p0 Suc.prems show ?thesis by auto
    next
      case (Cons item rest)
      obtain nonce ch where item: "item = (nonce, ch)" by (cases item)
      from wf Cons item have n24: "length nonce = 24" and ne: "ch \<noteq> []"
        and le: "length ch \<le> maxChunkSize" by auto
      define b3 where
        "b3 = b\<lparr>in_r := concat (map (\<lambda>(nonce, ch). frame c key nonce ch) rest), buf_r := ch,
                 index := (if length ch \<le> 1 then 0 else 1)\<rparr>"
      have i: "in_r b = frame c (secretKey_r b) nonce ch
                 @ concat (map (\<lambda>(nonce, ch). frame c key nonce ch) rest)"
        using src Cons item k by simp
      have body: "Read_body c b = Ret (Inr (hd ch), b3)"
        unfolding b3_def
        using aead overhead key k by (intro Read_body_fetch[OF True _ n24 ne le _ _ i]) auto
      have p: "ch = hd ch # pending b3"
        unfolding b3_def by (rule pending_fetch[OF ne])
      have rf3: "reads_frames c key b3 rest"
        using k wf Cons ne by (auto simp: reads_frames_def b3_def)
      from Suc.IH[OF rf3] obtain b' items' where
        r: "Read c b3 n = Ret (take n (pending b3 @ concat (map snd rest)),
                          (if n \<le> length (pending b3 @ concat (map snd rest))
                           then None else Some EOF), b')"
        and rf': "reads_frames c key b' items'"
        and d: "pending b' @ concat (map snd items') = drop n (pending b3 @ concat (map snd rest))"
        by blast
      have R: "pending b @ concat (map snd items) = hd ch # pending b3 @ concat (map snd rest)"
        using p by (simp add: p0 Cons item)
      have "Read c b (Suc n) = Ret (take (Suc n) (pending b @ concat (map snd items)),
                          (if Suc n \<le> length (pending b @ concat (map snd items))
                           then None else Some EOF), b')"
        unfolding R by (simp add: body r)
      moreover have "pending b' @ concat (map snd items')
                     = drop (Suc n) (pending b @ concat (map snd items))"
        unfolding R by (simp add: d)
      ultimately show ?thesis using rf' by blast
    qed
  qed
qed

lemma take_not_Nil: "0 < n \<Longrightarrow> n \<le> length xs \<Longrightarrow> take n xs \<noteq> []"
  by (cases xs) auto

lemma io_Copy_Read_frames:
  assumes aead: "\<forall>nonce p. Open c key nonce (Seal c key nonce p) = Some p"
    and overhead: "\<forall>nonce p. length (Seal c key nonce p) = length p + 16"
    and key: "length key = 32"
  shows "reads_frames c key b items \<Longrightarrow> room dst = None \<Longrightarrow>
     \<exists>b'. io_Copy_Read c b dst
            = Ret (None, b', dst\<lparr>written := written dst @ pending b @ concat (map snd items)\<rparr>)"
proof (induction "length (pending b @ concat (map snd items))" arbitrary: b items dst
        rule: less_induct)
  case less
  define R where "R = pending b @ concat (map snd items)"
  from Read_frames[OF aead overhead key less.prems(1), of copyBuf, folded R_def]
  obtain b' items' where
    r: "Read c b copyBuf = Ret (take copyBuf R,
                          (if copyBuf \<le> length R then None else Some EOF), b')"
    and rf': "reads_frames c key b' items'"
    and d: "pending b' @ concat (map snd items') = drop copyBuf R"
    by blast
  have "io_Copy_Read c b dst = Ret (None, b'', dst\<lparr>written := written dst @ R\<rparr>)"
    if "copyBuf \<le> length R" and rec: "io_Copy_Read c b' (dst\<lparr>written := written dst @ take copyBuf R\<rparr>)
             = Ret (None, b'', dst\<lparr>written := written dst @ R\<rparr>)" for b''
  proof -
    have ne: "take copyBuf R \<noteq> []"
      using copyBuf_pos that(1) by (rule take_not_Nil)
    have sw: "sink_Write dst (take copyBuf R)
                = Inr (dst\<lparr>written := written dst @ take copyBuf R\<rparr>)"
      by (rule sink_Write_unbounded[OF less.prems(2)])
    show ?thesis
      apply (subst io_Copy_Read.simps)
      using that(1) ne by (simp add: r sw rec)
  qed
  note big = this
  show ?case
  proof (cases "copyBuf \<le> length R")
    case True
    define dst' where "dst' = dst\<lparr>written := written dst @ take copyBuf R\<rparr>"
    have room': "room dst' = None" using less.prems(2) by (simp add: dst'_def)
    have "length (drop copyBuf R) < length R"
      using True copyBuf_pos by simp
    then have "length (pending b' @ concat (map snd items'))
                 < length (pending b @ concat (map snd items))"
      unfolding d R_def .
    from less.hyps[OF this rf' room'] obtain b'' where
      rec: "io_Copy_Read c b' dst'
             = Ret (None, b'',
                 dst'\<lparr>written := written dst' @ pending b' @ concat (map snd items')\<rparr>)"
      by blast
    have "written dst' @ drop copyBuf R = written dst @ R"
      unfolding dst'_def by simp
    then have w: "dst'\<lparr>written := written dst' @ pending b' @ concat (map snd items')\<rparr>
               = dst\<lparr>written := written dst @ R\<rparr>"
      unfolding d by (simp add: dst'_def)
    from rec have "io_Copy_Read c b' (dst\<lparr>written := written dst @ take copyBuf R\<rparr>)
             = Ret (None, b'', dst\<lparr>written := written dst @ R\<rparr>)"
      unfolding w unfolding dst'_def .
    from big[OF True this] show ?thesis unfolding R_def by blast
  next
    case False
    then have t: "take copyBuf R = R" by simp
    have "io_Copy_Read c b dst = Ret (None, b', dst\<lparr>written := written dst @ R\<rparr>)"
    proof (cases "R = []")
      case True
      show ?thesis
        apply (subst io_Copy_Read.simps)
        using False True by (simp add: r)
    next
      case ne: False
      have sw: "sink_Write dst R = Inr (dst\<lparr>written := written dst @ R\<rparr>)"
        by (rule sink_Write_unbounded[OF less.prems(2)])
      show ?thesis
        apply (subst io_Copy_Read.simps)
        using False ne by (simp add: r t sw)
    qed
    then show ?thesis unfolding R_def by blast
  qed
qed

lemma frames_as_items:
  "frames c key rnd k chunks
     = concat (map (\<lambda>(nonce, ch). frame c key nonce ch)
         (zip (map (nonce_at rnd) [k..<k + length chunks]) chunks))"
proof (induction chunks arbitrary: k)
  case Nil
  show ?case by simp
next
  case (Cons ch chunks)
  have "[k..<k + Suc (length chunks)] = k # [Suc k..<k + Suc (length chunks)]"
    by (rule upt_conv_Cons) simp
  moreover have "k + Suc (length chunks) = Suc k + length chunks" by simp
  ultimately have "[k..<k + length (ch # chunks)] = k # [Suc k..<Suc k + length chunks]"
    by simp
  then show ?case by (simp only: frames.simps Cons.IH list.map zip_Cons_Cons concat.simps
        prod.case)
qed

lemma nonce_at_length:
  "rand_ReadFull rnd j 24 \<noteq> None \<Longrightarrow> length (nonce_at rnd j) = 24"
  by (auto simp: nonce_at_def rand_ReadFull_def split: option.splits if_splits)

lemma good_draws_lengths:
  assumes "good_draws rnd used k n" "nonce \<in> set (map (nonce_at rnd) [k..<k + n])"
  shows "length nonce = 24"
proof -
  from assms(2) obtain j where j: "k \<le> j \<and> j < k + n" and n: "nonce = nonce_at rnd j"
    by auto
  from assms(1)[unfolded good_draws_def, rule_format, OF j]
  have "rand_ReadFull rnd j 24 \<noteq> None" by simp
  from nonce_at_length[OF this] n show ?thesis by simp
qed

text \<open>A reader placed on the frames that one encryption has written.\<close>

lemma reads_frames_new:
  assumes "good_draws rnd used k (length chunks)"
    and "\<forall>ch \<in> set chunks. ch \<noteq> [] \<and> length ch \<le> maxChunkSize"
  shows "reads_frames c (array_of 32 sk) (NewReader sk (frames c (array_of 32 sk) rnd k chunks))
           (zip (map (nonce_at rnd) [k..<k + length chunks]) chunks)"
  unfolding reads_frames_def
proof (intro conjI)
  show "in_r (NewReader sk (frames c (array_of 32 sk) rnd k chunks))
          = concat (map (\<lambda>(nonce, ch). frame c (array_of 32 sk) nonce ch)
              (zip (map (nonce_at rnd) [k..<k + length chunks]) chunks))"
    by (simp add: NewReader_def frames_as_items)
  show "\<forall>(nonce, ch) \<in> set (zip (map (nonce_at rnd) [k..<k + length chunks]) chunks).
          length nonce = 24 \<and> ch \<noteq> [] \<and> length ch \<le> maxChunkSize"
  proof (clarify, intro conjI)
    fix nonce ch
    assume m: "(nonce, ch) \<in> set (zip (map (nonce_at rnd) [k..<k + length chunks]) chunks)"
    from set_zip_leftD[OF m] good_draws_lengths[OF assms(1)] show "length nonce = 24" by blast
    from set_zip_rightD[OF m] assms(2) show "ch \<noteq> []" and "length ch \<le> maxChunkSize" by auto
  qed
qed (simp_all add: NewReader_def)

lemma generateKey_runs:
  assumes "rand_ReadFull rnd k 32 \<noteq> None" "defaultArgonLanes n \<noteq> 0"
  shows "\<exists>skb header. generateKey c rnd n k pw = Ret (Inr (skb, header), Suc k)"
proof -
  from assms(1) obtain salt where s: "rand_ReadFull rnd k 32 = Some salt" by auto
  have t: "\<not> defaultArgonTime < 1" by (simp add: defaultArgonTime_def)
  have l: "\<not> defaultArgonLanes n < 1" using assms(2) by (simp add: word_less_1)
  show ?thesis
    using t l by (simp add: generateKey_def s IDKey_def Let_def)
qed

lemma encryptFile_runs:
  assumes os: "\<forall>call. \<not> fails env call" "disk env = None"
    and gk: "generateKey c (rand env) (NumCPU env) 0 pw = Ret (Inr (skb, header), Suc 0)"
    and cp: "io_Copy_Write c (rand env)
               (Suc 0, NewWriter (array_of 32 (take 32 skb)) \<lparr>written = [], room = None\<rparr>) P
             = Ret (None, k, w)"
  shows "encryptFile c env files pw P fin
     = Ret (None, files(fin @ ''.temp'' := None,
          fin \<mapsto> binary_Write_header
                   (header\<lparr>Tag := array_of 64
                      (blake2b_512 c (array_of 32 (drop 32 skb)) (written (out w)))\<rparr>)
                 @ written (out w)))"
  unfolding encryptFile_def Let_def
  using os by (simp add: gk sink_Write_def cp)

text \<open>
  Claim C1: for every passphrase and every plaintext \<open>P\<close>, \<open>encryptFile\<close> produces a file
  from which \<open>decryptFile\<close>, with the same passphrase, produces exactly \<open>P\<close>. The
  assumptions are those of a run without faults: the AEAD opens what it sealed and adds
  sixteen bytes, the random source delivers the salt and a fresh nonce for each chunk, the
  lanes value is not 0, no operating-system call fails and the disks have room.
\<close>

theorem round_trip:
  assumes aead: "\<forall>key nonce p. Open c key nonce (Seal c key nonce p) = Some p"
    and overhead: "\<forall>key nonce p. length (Seal c key nonce p) = length p + 16"
    and salt: "rand_ReadFull (rand env) 0 32 \<noteq> None"
    and draws: "good_draws (rand env) {} 1 (length (expected_file_chunks P))"
    and lanes: "defaultArgonLanes (NumCPU env) \<noteq> 0"
    and os: "\<forall>call. \<not> fails env call" "disk env = None"
    and os': "\<forall>call. \<not> fails env' call" "disk env' = None"
  shows "\<exists>F. encryptFile c env files pw P fin
               = Ret (None, files(fin @ ''.temp'' := None, fin \<mapsto> F))
           \<and> decryptFile c env' files2 pw F fin2
               = Ret (None, files2(fin2 @ ''.temp'' := None, fin2 \<mapsto> P))"
proof -
  from generateKey_runs[OF salt lanes] obtain skb header where
    gk: "generateKey c (rand env) (NumCPU env) 0 pw = Ret (Inr (skb, header), Suc 0)"
    by blast
  define sk where "sk = array_of 32 (take 32 skb)"
  define macKey where "macKey = array_of 32 (drop 32 skb)"
  define w0 where "w0 = NewWriter sk \<lparr>written = [], room = None\<rparr>"
  define chunks where "chunks = expected_file_chunks P"
  have b0: "buf w0 = []" and k0: "length (secretKey w0) = 32" and r0: "room (out w0) = None"
    and u0: "usedNonces w0 = {}" and key0: "secretKey w0 = array_of 32 sk"
    and wr0: "written (out w0) = []"
    by (simp_all add: w0_def NewWriter_def)
  have gd: "good_draws (rand env) (usedNonces w0) (Suc 0) (length (expected_file_chunks P))"
    using draws by (simp add: u0)
  from io_Copy_Write_runs[OF b0 k0 r0 gd, of c] obtain w where
    cp: "io_Copy_Write c (rand env) (Suc 0, w0) P = Ret (None, Suc 0 + length chunks, w)"
    unfolding chunks_def by blast
  from io_Copy_Write_success[OF b0 cp]
  have region: "written (out w) = frames c (array_of 32 sk) (rand env) (Suc 0) chunks"
    by (simp add: wr0 key0 chunks_def)
  define tag where "tag = array_of 64 (blake2b_512 c macKey (written (out w)))"
  define F where "F = binary_Write_header (header\<lparr>Tag := tag\<rparr>) @ written (out w)"
  have enc: "encryptFile c env files pw P fin
               = Ret (None, files(fin @ ''.temp'' := None, fin \<mapsto> F))"
    unfolding F_def tag_def macKey_def
    by (rule encryptFile_runs[OF os gk cp[unfolded w0_def sk_def]])
  have wf: "\<forall>ch \<in> set chunks. ch \<noteq> [] \<and> length ch \<le> maxChunkSize"
    unfolding chunks_def using expected_file_chunks_sizes by blast
  have gd': "good_draws (rand env) {} (Suc 0) (length chunks)"
    using draws by (simp add: chunks_def)
  define items where "items = zip (map (nonce_at (rand env)) [Suc 0..<Suc 0 + length chunks]) chunks"
  have rf: "reads_frames c (array_of 32 sk) (NewReader sk (written (out w))) items"
    unfolding region items_def by (rule reads_frames_new[OF gd' wf])
  have ms: "map snd items = chunks"
    unfolding items_def
    by (rule map_snd_zip) (simp only: length_map length_upt add_diff_cancel_left')
  have pl: "pending (NewReader sk (written (out w))) @ concat (map snd items) = P"
    unfolding ms by (simp add: pending_def NewReader_def chunks_def)
  have a: "\<forall>nonce p. Open c (array_of 32 sk) nonce (Seal c (array_of 32 sk) nonce p) = Some p"
    using aead by simp
  have o: "\<forall>nonce p. length (Seal c (array_of 32 sk) nonce p) = length p + 16"
    using overhead by simp
  have "room \<lparr>written = [], room = disk env'\<rparr> = None" using os'(2) by simp
  from io_Copy_Read_frames[OF a o _ rf this] obtain b' where
    cr: "io_Copy_Read c (NewReader sk (written (out w))) \<lparr>written = [], room = disk env'\<rparr>
           = Ret (None, b', \<lparr>written = [], room = disk env'\<rparr>\<lparr>written := P\<rparr>)"
    unfolding pl append_Nil sink.simps by auto
  have t: "array_of 64 tag = tag" unfolding tag_def by (simp add: array_of_exact)
  have os3: "\<not> fails env' CreateTemp" "\<not> fails env' SeekInput" "\<not> fails env' TellInput"
    using os'(1) by simp_all
  have dec: "decryptFile c env' files2 pw F fin2
               = Ret (None, files2(fin2 @ ''.temp'' := None, fin2 \<mapsto> P))"
    unfolding F_def decryptFile_authenticates[OF gk os3] Let_def
    using os'(1) by (simp add: t tag_def[symmetric] macKey_def[symmetric] sk_def[symmetric] cr)
  from enc dec show ?thesis by blast
qed

theorem round_trip_witness:
  "\<exists>F. encryptFile test_crypto test_env Map.empty [1, 2] (replicate 16385 7) ''o''
           = Ret (None, Map.empty(''o'' @ ''.temp'' := None, ''o'' \<mapsto> F))
       \<and> decryptFile test_crypto test_env Map.empty [1, 2] F ''p''
           = Ret (None, Map.empty(''p'' @ ''.temp'' := None, ''p'' \<mapsto> replicate 16385 7))"
proof -
  let ?p = "replicate 16385 (7 :: byte)"
  have l: "length ?p = maxChunkSize + 1" by (simp add: maxChunkSize_def)
  have ec: "expected_chunks ?p = [replicate 16384 7, replicate 1 7]"
    unfolding expected_chunks_one_more[OF l] by (simp add: maxChunkSize_def)
  have ne: "?p \<noteq> []" by simp
  have efc: "expected_file_chunks ?p = [replicate 16384 7, replicate 1 7]"
    unfolding expected_file_chunks_step[OF ne] by (simp add: copyBuf_def ec)
  have aead: "\<forall>key nonce p. Open test_crypto key nonce (Seal test_crypto key nonce p) = Some p"
    by (simp add: test_crypto_def)
  have overhead: "\<forall>key nonce p. length (Seal test_crypto key nonce p) = length p + 16"
    by (simp add: test_crypto_def)
  have salt: "rand_ReadFull (rand test_env) 0 32 \<noteq> None"
    by (simp add: rand_ReadFull_def test_env_def)
  have draws: "good_draws (rand test_env) {} 1 (length (expected_file_chunks ?p))"
    unfolding efc by (rule test_good_draws) simp
  have lanes: "defaultArgonLanes (NumCPU test_env) \<noteq> 0"
    by (simp add: defaultArgonLanes_def test_env_def)
  have os: "\<forall>call. \<not> fails test_env call" "disk test_env = None"
    by (simp_all add: test_env_def)
  from round_trip[OF aead overhead salt draws lanes os os] show ?thesis .
qed


section \<open>The layout of an encrypted file\<close>

text \<open>
  Claim C3, amended: every file that \<open>encryptFile\<close> produces is exactly the header in a
  fixed layout of 105 bytes followed by the ciphertext region: at offset 0 the 32-byte salt
  that was drawn, at offset 32 \<open>argon_time\<close> (4, \<open>uint32\<close> little endian), at offset 36
  \<open>argon_memory\<close> (4000000, \<open>uint32\<close> little endian), at offset 40 \<open>argon_lanes\<close> (one
  byte), at offset 41 the 64-byte tag, which is the MAC of the region under the derived MAC
  key, and from offset 105 on the region, which is the sequence of chunk frames of the input.
\<close>

theorem header_layout:
  assumes "encryptFile c env files passphrase input finalOutput = Ret (None, files')"
  shows "\<exists>salt skb tag region.
      rand_ReadFull (rand env) 0 32 = Some salt
    \<and> IDKey c passphrase salt 4 4000000 (defaultArgonLanes (NumCPU env)) 64 = Ret skb
    \<and> region = frames c (array_of 32 (take 32 skb)) (rand env) 1 (expected_file_chunks input)
    \<and> tag = array_of 64 (blake2b_512 c (array_of 32 (drop 32 skb)) region)
    \<and> files' finalOutput =
          Some (salt @ le_bytes 4 4 @ le_bytes 4 4000000 @ [defaultArgonLanes (NumCPU env)]
                 @ tag @ region)
    \<and> length salt = 32 \<and> length (le_bytes 4 4) = 4 \<and> length (le_bytes 4 4000000) = 4
    \<and> length tag = 64
    \<and> length (salt @ le_bytes 4 4 @ le_bytes 4 4000000
                 @ [defaultArgonLanes (NumCPU env)] @ tag) = 105
    \<and> map_option (take 32) (files' finalOutput) = Some salt
    \<and> map_option (take 4 \<circ> drop 32) (files' finalOutput) = Some (le_bytes 4 4)
    \<and> map_option (take 4 \<circ> drop 36) (files' finalOutput) = Some (le_bytes 4 4000000)
    \<and> map_option (take 1 \<circ> drop 40) (files' finalOutput)
          = Some [defaultArgonLanes (NumCPU env)]
    \<and> map_option (take 64 \<circ> drop 41) (files' finalOutput) = Some tag
    \<and> map_option (drop 105) (files' finalOutput) = Some region"
proof -
  from encryptFile_success[OF assms] obtain skb header and k :: nat and w :: EncWriter where
    gk: "generateKey c (rand env) (NumCPU env) 0 passphrase = Ret (Inr (skb, header), Suc 0)"
    and cp: "io_Copy_Write c (rand env)
             (Suc 0, NewWriter (array_of 32 (take 32 skb))
                \<lparr>written = [], room = map_option (\<lambda>r. r - 105) (disk env)\<rparr>) input
               = Ret (None, k, w)"
    and f: "files' = (files(finalOutput @ ''.temp'' := None))(finalOutput \<mapsto>
              binary_Write_header
                (header\<lparr>Tag := array_of 64
                    (blake2b_512 c (array_of 32 (drop 32 skb)) (written (out w)))\<rparr>)
              @ written (out w))"
    by blast
  note h = generateKey_header[OF gk]
  define salt where "salt = Salt header"
  define region where
    "region = frames c (array_of 32 (take 32 skb)) (rand env) 1 (expected_file_chunks input)"
  define tag where "tag = array_of 64 (blake2b_512 c (array_of 32 (drop 32 skb)) region)"
  define lanes where "lanes = defaultArgonLanes (NumCPU env)"
  have ls: "length salt = 32" using h by (simp add: salt_def)
  have lt: "length tag = 64" by (simp add: tag_def)
  have 1: "rand_ReadFull (rand env) 0 32 = Some salt"
    unfolding salt_def by (rule generateKey_salt[OF gk])
  have 2: "IDKey c passphrase salt 4 4000000 lanes 64 = Ret skb"
    using generateKey_IDKey[OF gk] h by (simp add: salt_def lanes_def keyLen_def macLen_def)
  have b: "buf (NewWriter (array_of 32 (take 32 skb))
                \<lparr>written = [], room = map_option (\<lambda>r. r - 105) (disk env)\<rparr>) = []"
    by (simp add: NewWriter_def)
  from io_Copy_Write_success[OF b cp]
  have r: "written (out w) = region"
    by (simp add: NewWriter_def region_def array_of_exact)
  have hd: "binary_Write_header (header\<lparr>Tag := tag\<rparr>)
              = salt @ le_bytes 4 4 @ le_bytes 4 4000000 @ [lanes] @ tag"
    using h ls lt by (simp add: binary_Write_header_def array_of_exact salt_def lanes_def)
  have F: "files' finalOutput
             = Some (salt @ le_bytes 4 4 @ le_bytes 4 4000000 @ [lanes] @ tag @ region)"
    unfolding f r tag_def[symmetric] hd by simp
  have pos: "map_option (take 32) (files' finalOutput) = Some salt"
    "map_option (take 4 \<circ> drop 32) (files' finalOutput) = Some (le_bytes 4 4)"
    "map_option (take 4 \<circ> drop 36) (files' finalOutput) = Some (le_bytes 4 4000000)"
    "map_option (take 1 \<circ> drop 40) (files' finalOutput) = Some [lanes]"
    "map_option (take 64 \<circ> drop 41) (files' finalOutput) = Some tag"
    "map_option (drop 105) (files' finalOutput) = Some region"
    unfolding F using ls lt by simp_all
  have len: "length (salt @ le_bytes 4 4 @ le_bytes 4 4000000 @ [lanes] @ tag) = 105"
    using ls lt by simp
  show ?thesis
    apply (rule exI[of _ salt], rule exI[of _ skb], rule exI[of _ tag], rule exI[of _ region])
    using 1 2 F pos len ls lt
    unfolding lanes_def[symmetric]
    by (simp add: region_def tag_def)
qed

theorem header_layout_witness:
  "\<exists>files' salt skb tag region.
      encryptFile test_crypto test_env Map.empty [1, 2] [5, 6, 7] ''o'' = Ret (None, files')
    \<and> rand_ReadFull (rand test_env) 0 32 = Some salt
    \<and> IDKey test_crypto [1, 2] salt 4 4000000 (defaultArgonLanes (NumCPU test_env)) 64
         = Ret skb
    \<and> region = frames test_crypto (array_of 32 (take 32 skb)) (rand test_env) 1
                 (expected_file_chunks [5, 6, 7])
    \<and> tag = array_of 64 (blake2b_512 test_crypto (array_of 32 (drop 32 skb)) region)
    \<and> files' ''o'' =
          Some (salt @ le_bytes 4 4 @ le_bytes 4 4000000
                 @ [defaultArgonLanes (NumCPU test_env)] @ tag @ region)
    \<and> length (salt @ le_bytes 4 4 @ le_bytes 4 4000000
                 @ [defaultArgonLanes (NumCPU test_env)] @ tag) = 105
    \<and> map_option (take 32) (files' ''o'') = Some salt
    \<and> map_option (take 64 \<circ> drop 41) (files' ''o'') = Some tag
    \<and> map_option (drop 105) (files' ''o'') = Some region"
proof -
  obtain files' where
    e: "encryptFile test_crypto test_env Map.empty [1, 2] [5, 6, 7] ''o'' = Ret (None, files')"
    by (simp add: eval_defs)
  from header_layout[OF e] e show ?thesis by blast
qed

end
